theory Spec2Isabelle
  imports Complex_Main "HOL-Library.AList" "HOL-Library.Product_Lexorder" "HOL-Library.Multiset"
begin

section \<open>CPU scheduling simulator: the data model\<close>

text \<open>
  The source (\<^verbatim>\<open>cpu_scheduler_simulation_v2.py\<close>) represents a process as the tuple
  \<^verbatim>\<open>(pid, arrival, burst, priority)\<close> and a timeline segment as \<^verbatim>\<open>(pid, start, end)\<close>.
  Python integers are unbounded, hence \<open>int\<close>. The preemptive schedulers work on 5-tuples
  \<^verbatim>\<open>(pid, arrival, remaining, original_burst, priority)\<close>.
\<close>

type_synonym process = "string \<times> int \<times> int \<times> int"
type_synonym segment = "string \<times> int \<times> int"
type_synonym work = "string \<times> int \<times> int \<times> int \<times> int"

fun p_pid :: "process \<Rightarrow> string" where "p_pid (pid, arrival, burst, priority) = pid"
fun p_arrival :: "process \<Rightarrow> int" where "p_arrival (pid, arrival, burst, priority) = arrival"
fun p_burst :: "process \<Rightarrow> int" where "p_burst (pid, arrival, burst, priority) = burst"
fun p_priority :: "process \<Rightarrow> int" where "p_priority (pid, arrival, burst, priority) = priority"

fun s_pid :: "segment \<Rightarrow> string" where "s_pid (pid, start, end) = pid"
fun s_start :: "segment \<Rightarrow> int" where "s_start (pid, start, end) = start"
fun s_end :: "segment \<Rightarrow> int" where "s_end (pid, start, end) = end"

fun w_pid :: "work \<Rightarrow> string" where "w_pid (pid, arrival, remaining, original_burst, priority) = pid"
fun w_arrival :: "work \<Rightarrow> int" where "w_arrival (pid, arrival, remaining, original_burst, priority) = arrival"
fun w_remaining :: "work \<Rightarrow> int" where "w_remaining (pid, arrival, remaining, original_burst, priority) = remaining"
fun w_priority :: "work \<Rightarrow> int" where "w_priority (pid, arrival, remaining, original_burst, priority) = priority"

text \<open>
  What a call can do: return a value, raise a Python exception, or never return
  (a \<^verbatim>\<open>while\<close> loop that runs forever).
\<close>

datatype py_error =
  ValueError | IndexError | KeyError | UnboundLocalError | OverflowError | ZeroDivisionError

datatype 'a outcome = Returns 'a | Raises py_error | Diverges

text \<open>
  A Python \<^verbatim>\<open>while cond: body\<close> over an explicit state. The result is \<open>None\<close> exactly when
  the loop does not terminate.
\<close>

partial_function (option) while_loop :: "('s \<Rightarrow> bool) \<Rightarrow> ('s \<Rightarrow> 's) \<Rightarrow> 's \<Rightarrow> 's option" where
  "while_loop b c s = (if b s then while_loop b c (c s) else Some s)"

declare while_loop.simps [code]

definition returning :: "('s \<Rightarrow> 'a) \<Rightarrow> 's option \<Rightarrow> 'a outcome" where
  "returning f r = (case r of None \<Rightarrow> Diverges | Some s \<Rightarrow> Returns (f s))"

text \<open>
  A \<^verbatim>\<open>while\<close> loop whose body may raise: the first exception ends the loop and is the
  result.
\<close>

definition loop_try ::
    "('s \<Rightarrow> bool) \<Rightarrow> ('s \<Rightarrow> py_error + 's) \<Rightarrow> 's \<Rightarrow> (py_error + 's) option" where
  "loop_try b c s =
     while_loop (\<lambda>x. case x of Inl e \<Rightarrow> False | Inr s \<Rightarrow> b s)
       (\<lambda>x. case x of Inl e \<Rightarrow> Inl e | Inr s \<Rightarrow> c s) (Inr s)"

definition completing :: "('s \<Rightarrow> 'a) \<Rightarrow> (py_error + 's) option \<Rightarrow> 'a outcome" where
  "completing f r =
     (case r of None \<Rightarrow> Diverges | Some (Inl e) \<Rightarrow> Raises e | Some (Inr s) \<Rightarrow> Returns (f s))"

section \<open>Floating-point numbers\<close>

text \<open>
  A Python \<^verbatim>\<open>float\<close> is an IEEE 754 binary64 number: a finite value \<open>m * 2^e\<close> with
  \<open>\<bar>m\<bar> < 2^53\<close> and \<open>-1074 \<le> e\<close>, below \<open>2^1024\<close> in magnitude, or a negative zero, or an
  infinity (no operation of the program produces a NaN). A finite float is kept as the
  rational number it denotes. The result of an operation is the exact result rounded to
  the nearest float, a tie going to the float with an even significand.
\<close>

datatype float64 = Finite rat | NegZero | PosInf | NegInf

text \<open>The number of binary digits of a natural number (\<^verbatim>\<open>int.bit_length\<close>).\<close>

fun bit_length :: "nat \<Rightarrow> nat" where
  "bit_length n = (if n = 0 then 0 else Suc (bit_length (n div 2)))"

declare bit_length.simps [simp del]

definition pow2 :: "int \<Rightarrow> rat" where
  "pow2 k = (if 0 \<le> k then 2 ^ nat k else 1 / 2 ^ nat (- k))"

text \<open>The exponent \<open>e\<close> with \<open>2^e \<le> \<bar>x\<bar> < 2^(e+1)\<close>, for \<open>x\<close> other than 0.\<close>

definition exponent_of :: "rat \<Rightarrow> int" where
  "exponent_of x =
     (if 1 \<le> \<bar>x\<bar> then int (bit_length (nat \<lfloor>\<bar>x\<bar>\<rfloor>)) - 1
      else - int (bit_length (nat (\<lceil>1 / \<bar>x\<bar>\<rceil> - 1))))"

definition round_half_even :: "rat \<Rightarrow> int" where
  "round_half_even y =
     (let f = \<lfloor>y\<rfloor>; d = y - of_int f
      in if d < 1 / 2 then f else if 1 / 2 < d then f + 1 else if even f then f else f + 1)"

text \<open>
  Rounding to 53 significant bits, or to a multiple of \<open>2^-1074\<close> in the subnormal range.
\<close>

definition nearest_float :: "rat \<Rightarrow> rat" where
  "nearest_float x =
     (if x = 0 then 0
      else let ulp = pow2 (max (exponent_of x - 52) (- 1074))
           in of_int (round_half_even (x / ulp)) * ulp)"

text \<open>
  The largest float is \<open>2^1024 - 2^971\<close>; a number rounds beyond it from
  \<open>2^1024 - 2^970\<close> on.
\<close>

definition float_limit :: int where
  "float_limit = 2 ^ 1024 - 2 ^ 970"

definition float_overflow :: "rat \<Rightarrow> bool" where
  "float_overflow x \<longleftrightarrow> of_int float_limit \<le> \<bar>x\<bar>"

definition to_float :: "rat \<Rightarrow> float64" where
  "to_float x =
     (if float_overflow x then (if 0 < x then PosInf else NegInf)
      else let y = nearest_float x in if y = 0 \<and> x < 0 then NegZero else Finite y)"

text \<open>
  Converting an \<^verbatim>\<open>int\<close> to a \<^verbatim>\<open>float\<close>, as an arithmetic operation between the two does
  with its integer operand: \<^verbatim>\<open>OverflowError\<close> when the integer is out of range.
\<close>

definition float_of_int :: "int \<Rightarrow> py_error + float64" where
  "float_of_int n =
     (if float_overflow (of_int n) then Inl OverflowError else Inr (to_float (of_int n)))"

text \<open>
  \<^verbatim>\<open>a / b\<close> on two integers: the exact quotient, correctly rounded; \<^verbatim>\<open>OverflowError\<close> when
  it is out of range. A zero result is negative when the signs of \<^verbatim>\<open>a\<close> and \<^verbatim>\<open>b\<close> differ,
  the sign of 0 being positive.
\<close>

definition int_truediv :: "int \<Rightarrow> int \<Rightarrow> py_error + float64" where
  "int_truediv a b =
     (if b = 0 then Inl ZeroDivisionError
      else let x = of_int a / of_int b
           in if float_overflow x then Inl OverflowError
              else if nearest_float x = 0 \<and> ((a < 0) \<noteq> (b < 0)) then Inr NegZero
              else Inr (Finite (nearest_float x)))"

text \<open>
  \<^verbatim>\<open>x * 100\<close> on a float \<^verbatim>\<open>x\<close>: the integer 100 becomes the float 100.0 and the product is
  rounded; a float operation does not raise on overflow, the result is an infinity.
\<close>

definition times_100 :: "float64 \<Rightarrow> float64" where
  "times_100 x =
     (case x of
        Finite v \<Rightarrow> to_float (v * 100)
      | NegZero \<Rightarrow> NegZero
      | PosInf \<Rightarrow> PosInf
      | NegInf \<Rightarrow> NegInf)"

text \<open>A Python number of the report: an \<^verbatim>\<open>int\<close> or a \<^verbatim>\<open>float\<close>.\<close>

datatype number = PyInt int | PyFloat float64

section \<open>The scheduling functions\<close>

subsection \<open>FCFS and non-preemptive priority\<close>

text \<open>
  The \<^verbatim>\<open>for\<close> loop of \<^verbatim>\<open>fcfs_scheduling\<close> (lines 16-20), which \<^verbatim>\<open>priority_scheduling\<close>
  repeats verbatim (lines 106-110): each process runs to completion, starting at
  \<^verbatim>\<open>max(current_time, arrival)\<close>.
\<close>

fun run_to_completion :: "process list \<Rightarrow> int \<Rightarrow> segment list \<Rightarrow> segment list" where
  "run_to_completion [] current_time schedule = schedule"
| "run_to_completion ((pid, arrival, burst, priority) # rest) current_time schedule =
     (let start_time = max current_time arrival;
          end_time = start_time + burst
      in run_to_completion rest end_time (schedule @ [(pid, start_time, end_time)]))"

text \<open>\<^verbatim>\<open>sorted\<close> is a stable sort, as \<open>sort_key\<close> is.\<close>

definition fcfs_scheduling :: "process list \<Rightarrow> segment list" where
  "fcfs_scheduling processes = run_to_completion (sort_key p_arrival processes) 0 []"

definition priority_scheduling :: "process list \<Rightarrow> segment list" where
  "priority_scheduling processes =
     run_to_completion (sort_key (\<lambda>p. (p_priority p, p_arrival p)) processes) 0 []"

subsection \<open>Shortest job next, non-preemptive\<close>

text \<open>
  Lines 30-31 (and 51-52, 121-122): move processes from the head of the pending list to
  the ready queue for as long as the head has arrived. Only the head is inspected.
\<close>

fun admit :: "('p \<Rightarrow> int) \<Rightarrow> int \<Rightarrow> 'p list \<Rightarrow> 'p list \<Rightarrow> 'p list \<times> 'p list" where
  "admit arr current_time [] ready_queue = ([], ready_queue)"
| "admit arr current_time (p # processes) ready_queue =
     (if arr p \<le> current_time then admit arr current_time processes (ready_queue @ [p])
      else (p # processes, ready_queue))"

type_synonym sjn_state = "process list \<times> process list \<times> int \<times> segment list"

definition sjn_cond :: "sjn_state \<Rightarrow> bool" where
  "sjn_cond = (\<lambda>(processes, ready_queue, current_time, schedule).
     processes \<noteq> [] \<or> ready_queue \<noteq> [])"

definition sjn_body :: "sjn_state \<Rightarrow> sjn_state" where
  "sjn_body = (\<lambda>(processes, ready_queue, current_time, schedule).
     let (processes, ready_queue) = admit p_arrival current_time processes ready_queue
     in if ready_queue \<noteq> [] then
          let ready_queue = sort_key p_burst ready_queue;
              (pid, arrival, burst, priority) = hd ready_queue;
              ready_queue = tl ready_queue;
              start_time = current_time;
              end_time = start_time + burst
          in (processes, ready_queue, end_time, schedule @ [(pid, start_time, end_time)])
        else
          (processes, ready_queue,
           (if processes \<noteq> [] then p_arrival (hd processes) else current_time + 1),
           schedule))"

definition sjn_scheduling :: "process list \<Rightarrow> segment list outcome" where
  "sjn_scheduling processes =
     returning (\<lambda>(processes, ready_queue, current_time, schedule). schedule)
       (while_loop sjn_cond sjn_body (processes, [], 0, []))"

subsection \<open>The two preemptive schedulers\<close>

text \<open>
  \<^verbatim>\<open>sjn_preemptive_scheduling\<close> (lines 43-82) and \<^verbatim>\<open>priority_preemptive_scheduling\<close>
  (lines 113-152) are the same text except for the sort key (\<^verbatim>\<open>x[2]\<close>, the remaining time,
  against \<^verbatim>\<open>x[4]\<close>, the priority; lines 54/124 and 68/138) and the preemption test
  (\<^verbatim>\<open>ready_queue[0][2] < remaining\<close> against \<^verbatim>\<open>ready_queue[0][4] < priority\<close>; lines 69/139).
  The loop is written once, with the two as parameters.
\<close>

datatype rank = ByRemaining | ByPriority

fun rank_key :: "rank \<Rightarrow> work \<Rightarrow> int" where
  "rank_key ByRemaining = w_remaining"
| "rank_key ByPriority = w_priority"

fun preempts :: "rank \<Rightarrow> work \<Rightarrow> int \<Rightarrow> int \<Rightarrow> bool" where
  "preempts ByRemaining head remaining priority = (w_remaining head < remaining)"
| "preempts ByPriority head remaining priority = (w_priority head < priority)"

text \<open>
  Line 59: \<^verbatim>\<open>min((p[1] for p in processes if p[1] > current_time), default=float('inf'))\<close>;
  \<open>None\<close> stands for infinity.
\<close>

definition next_arrival_of :: "work list \<Rightarrow> int \<Rightarrow> int option" where
  "next_arrival_of processes current_time =
     (let later = map w_arrival (filter (\<lambda>p. w_arrival p > current_time) processes)
      in if later = [] then None else Some (min_list later))"

text \<open>
  Line 60: \<^verbatim>\<open>min(1, remaining, max(1, next_arrival - current_time))\<close>. With a finite
  \<^verbatim>\<open>next_arrival\<close> all of it is integer arithmetic. With \<^verbatim>\<open>next_arrival\<close> infinite the
  subtraction is one of floats: it converts \<^verbatim>\<open>current_time\<close>, which raises \<^verbatim>\<open>OverflowError\<close>
  when the clock is out of the range of a float; otherwise the difference and the
  maximum are infinite, and the minimum is that of the first two arguments (comparing
  an integer with a float does not convert it).
\<close>

definition time_slice_of :: "int \<Rightarrow> int option \<Rightarrow> int \<Rightarrow> py_error + int" where
  "time_slice_of remaining next_arrival current_time =
     (case next_arrival of
        None \<Rightarrow>
          (case float_of_int current_time of
             Inl e \<Rightarrow> Inl e
           | Inr t \<Rightarrow> Inr (min 1 remaining))
      | Some na \<Rightarrow> Inr (min 1 (min remaining (max 1 (na - current_time)))))"

type_synonym pre_state = "work list \<times> work list \<times> work option \<times> int \<times> segment list"

definition pre_cond :: "pre_state \<Rightarrow> bool" where
  "pre_cond = (\<lambda>(processes, ready_queue, active_process, current_time, schedule).
     processes \<noteq> [] \<or> ready_queue \<noteq> [] \<or> active_process \<noteq> None)"

text \<open>Lines 51-81: one iteration.\<close>

definition pre_body :: "rank \<Rightarrow> pre_state \<Rightarrow> py_error + pre_state" where
  "pre_body r = (\<lambda>(processes, ready_queue, active_process, current_time, schedule).
     let (processes, ready_queue) = admit w_arrival current_time processes ready_queue;
         (active_process, ready_queue) =
           (if active_process = None \<and> ready_queue \<noteq> [] then
              let ready_queue = sort_key (rank_key r) ready_queue
              in (Some (hd ready_queue), tl ready_queue)
            else (active_process, ready_queue))
     in case active_process of
          Some (pid, arrival, remaining, original_burst, priority) \<Rightarrow>
            let start_time = current_time;
                next_arrival = next_arrival_of processes current_time
            in (case time_slice_of remaining next_arrival current_time of
                  Inl e \<Rightarrow> Inl e
                | Inr time_slice \<Rightarrow>
                    let current_time = current_time + time_slice;
                        remaining = remaining - time_slice;
                        schedule = schedule @ [(pid, start_time, current_time)];
                        new_arrivals = filter (\<lambda>p. w_arrival p \<le> current_time) processes
                    in Inr
                      (if new_arrivals \<noteq> [] then
                         let ready_queue = ready_queue @ new_arrivals;
                             processes = filter (\<lambda>p. w_arrival p > current_time) processes;
                             ready_queue = sort_key (rank_key r) ready_queue
                         in if ready_queue \<noteq> [] \<and>
                               preempts r (hd ready_queue) remaining priority then
                              let ready_queue =
                                    ready_queue @
                                    [(pid, arrival, remaining, original_burst, priority)]
                              in (processes, tl ready_queue, Some (hd ready_queue),
                                  current_time, schedule)
                            else if remaining = 0 then
                              (processes, ready_queue, None, current_time, schedule)
                            else
                              (processes, ready_queue,
                               Some (pid, arrival, remaining, original_burst, priority),
                               current_time, schedule)
                       else if remaining = 0 then
                         (processes, ready_queue, None, current_time, schedule)
                       else
                         (processes, ready_queue,
                          Some (pid, arrival, remaining, original_burst, priority),
                          current_time, schedule)))
        | None \<Rightarrow> Inr (processes, ready_queue, None, current_time + 1, schedule))"

text \<open>
  Lines 45-49: the working tuples, and the clock started at the earliest arrival;
  \<^verbatim>\<open>min\<close> of an empty sequence raises \<^verbatim>\<open>ValueError\<close>.
\<close>

definition preemptive_scheduling :: "rank \<Rightarrow> process list \<Rightarrow> segment list outcome" where
  "preemptive_scheduling r processes =
     (let processes = map (\<lambda>(pid, arrival, burst, priority).
                             (pid, arrival, burst, burst, priority)) processes
      in if processes = [] then Raises ValueError
         else completing (\<lambda>(processes, ready_queue, active_process, current_time, schedule). schedule)
                (loop_try pre_cond (pre_body r)
                   (processes, [], None, min_list (map w_arrival processes), [])))"

definition sjn_preemptive_scheduling :: "process list \<Rightarrow> segment list outcome" where
  "sjn_preemptive_scheduling = preemptive_scheduling ByRemaining"

definition priority_preemptive_scheduling :: "process list \<Rightarrow> segment list outcome" where
  "priority_preemptive_scheduling = preemptive_scheduling ByPriority"

subsection \<open>Round robin\<close>

type_synonym rr_state = "process list \<times> int \<times> segment list"

definition rr_cond :: "rr_state \<Rightarrow> bool" where
  "rr_cond = (\<lambda>(queue, current_time, schedule). queue \<noteq> [])"

definition rr_body :: "int \<Rightarrow> rr_state \<Rightarrow> rr_state" where
  "rr_body quantum = (\<lambda>(queue, current_time, schedule).
     let (pid, arrival, burst, priority) = hd queue;
         queue = tl queue;
         start_time = max current_time arrival;
         time_slice = min quantum burst;
         end_time = start_time + time_slice;
         schedule = schedule @ [(pid, start_time, end_time)];
         current_time = end_time;
         remaining_burst = burst - time_slice
     in if remaining_burst > 0 then
          (queue @ [(pid, arrival, remaining_burst, priority)], current_time, schedule)
        else (queue, current_time, schedule))"

definition round_robin_scheduling :: "process list \<Rightarrow> int \<Rightarrow> segment list outcome" where
  "round_robin_scheduling processes quantum =
     returning (\<lambda>(queue, current_time, schedule). schedule)
       (while_loop rr_cond (rr_body quantum) (processes, 0, []))"

section \<open>The metrics calculators\<close>

text \<open>
  A Python dict keeps its keys in insertion order; assigning to a key that is present
  replaces the value in place. \<open>AList.update\<close> does the same on an association list.
  Reading a missing key raises \<^verbatim>\<open>KeyError\<close>.
\<close>

type_synonym 'v dict = "(string \<times> 'v) list"

definition dict_get :: "'v dict \<Rightarrow> string \<Rightarrow> py_error + 'v" where
  "dict_get d k = (case map_of d k of None \<Rightarrow> Inl KeyError | Some v \<Rightarrow> Inr v)"

text \<open>\<^verbatim>\<open>{k: f(k) for k in keys}\<close>, where \<^verbatim>\<open>f\<close> may raise.\<close>

fun dict_build :: "(string \<Rightarrow> py_error + 'v) \<Rightarrow> string list \<Rightarrow> 'v dict \<Rightarrow> py_error + 'v dict" where
  "dict_build f [] d = Inr d"
| "dict_build f (k # ks) d =
     (case f k of
        Inl e \<Rightarrow> Inl e
      | Inr v \<Rightarrow> dict_build f ks (AList.update k v d))"

definition dict_comprehension :: "(string \<Rightarrow> py_error + 'v) \<Rightarrow> string list \<Rightarrow> py_error + 'v dict" where
  "dict_comprehension f ks = dict_build f ks []"

text \<open>
  \<^verbatim>\<open>sum(d.values()) / len(d) if d else 0\<close>: the quotient of two integers as a float, or
  the integer 0.
\<close>

definition average :: "int dict \<Rightarrow> py_error + number" where
  "average d =
     (if d \<noteq> [] then
        (case int_truediv (sum_list (map snd d)) (int (length d)) of
           Inl e \<Rightarrow> Inl e
         | Inr q \<Rightarrow> Inr (PyFloat q))
      else Inr (PyInt 0))"

type_synonym report = "int dict \<times> number \<times> int dict \<times> number \<times> int dict \<times> number"

text \<open>Lines 167-170 and 192-195: the three averages, in this order, and the result.\<close>

definition with_averages :: "int dict \<Rightarrow> int dict \<Rightarrow> int dict \<Rightarrow> py_error + report" where
  "with_averages waiting_times turnaround_times response_times =
     (case average waiting_times of
        Inl e \<Rightarrow> Inl e
      | Inr avg_waiting \<Rightarrow>
          (case average turnaround_times of
             Inl e \<Rightarrow> Inl e
           | Inr avg_turnaround \<Rightarrow>
               (case average response_times of
                  Inl e \<Rightarrow> Inl e
                | Inr avg_response \<Rightarrow>
                    Inr (waiting_times, avg_waiting, turnaround_times, avg_turnaround,
                         response_times, avg_response))))"

text \<open>Lines 160-163: the first start and the last end of every process id of the schedule.\<close>

fun record_runs :: "segment list \<Rightarrow> int dict \<times> int dict \<Rightarrow> int dict \<times> int dict" where
  "record_runs [] (first_starts, completion_times) = (first_starts, completion_times)"
| "record_runs ((pid, start, end) # schedule) (first_starts, completion_times) =
     record_runs schedule
       (if map_of first_starts pid = None then AList.update pid start first_starts
        else first_starts,
        AList.update pid end completion_times)"

definition minus_arrival :: "int dict \<Rightarrow> int dict \<Rightarrow> string \<Rightarrow> py_error + int" where
  "minus_arrival ts process_dict pid =
     (case dict_get ts pid of
        Inl e \<Rightarrow> Inl e
      | Inr t \<Rightarrow> (case dict_get process_dict pid of Inl e \<Rightarrow> Inl e | Inr a \<Rightarrow> Inr (t - a)))"

definition calculate_waiting_time :: "segment list \<Rightarrow> process list \<Rightarrow> py_error + report" where
  "calculate_waiting_time schedule processes =
     (let process_dict = fold (\<lambda>p d. AList.update (p_pid p) (p_arrival p) d) processes [];
          (first_starts, completion_times) = record_runs schedule ([], []);
          waiting_times =
            map (\<lambda>pid. (pid, max 0 (the (map_of first_starts pid) - the (map_of process_dict pid))))
              (filter (\<lambda>pid. map_of first_starts pid \<noteq> None) (map fst process_dict))
      in case dict_comprehension (minus_arrival completion_times process_dict)
                (map fst process_dict) of
           Inl e \<Rightarrow> Inl e
         | Inr turnaround_times \<Rightarrow>
             (case dict_comprehension (minus_arrival first_starts process_dict)
                     (map fst process_dict) of
                Inl e \<Rightarrow> Inl e
              | Inr response_times \<Rightarrow>
                  with_averages waiting_times turnaround_times response_times))"

text \<open>
  Lines 179-189. The state is \<^verbatim>\<open>(waiting_times, first_starts, completion_times, last_end)\<close>;
  \<^verbatim>\<open>process_dict\<close> maps a process id to \<^verbatim>\<open>(arrival, burst)\<close>.
\<close>

type_synonym frag_state = "int dict \<times> int dict \<times> int dict \<times> int dict"

fun record_fragments :: "(int \<times> int) dict \<Rightarrow> segment list \<Rightarrow> frag_state \<Rightarrow> frag_state" where
  "record_fragments process_dict [] st = st"
| "record_fragments process_dict ((pid, start, end) # schedule)
       (waiting_times, first_starts, completion_times, last_end) =
     (let first_starts =
            (if map_of first_starts pid = None then AList.update pid start first_starts
             else first_starts);
          (waiting_times, last_end) =
            (case map_of process_dict pid of
               None \<Rightarrow> (waiting_times, last_end)
             | Some (arrival, burst) \<Rightarrow>
                 ((case map_of waiting_times pid of
                     None \<Rightarrow> AList.update pid (max 0 (start - arrival)) waiting_times
                   | Some w \<Rightarrow>
                       (case map_of last_end pid of
                          None \<Rightarrow> waiting_times
                        | Some l \<Rightarrow> AList.update pid (w + (start - l)) waiting_times)),
                  AList.update pid end last_end));
          completion_times = AList.update pid end completion_times
      in record_fragments process_dict schedule
           (waiting_times, first_starts, completion_times, last_end))"

definition calculate_preemptive_waiting_time ::
    "segment list \<Rightarrow> process list \<Rightarrow> py_error + report" where
  "calculate_preemptive_waiting_time schedule processes =
     (let process_dict =
            fold (\<lambda>p d. AList.update (p_pid p) (p_arrival p, p_burst p) d) processes [];
          (waiting_times, first_starts, completion_times, last_end) =
            record_fragments process_dict schedule ([], [], [], []);
          arrivals = map (\<lambda>(pid, arrival, burst). (pid, arrival)) process_dict
      in case dict_comprehension (minus_arrival completion_times arrivals)
                (map fst process_dict) of
           Inl e \<Rightarrow> Inl e
         | Inr turnaround_times \<Rightarrow>
             (case dict_comprehension (minus_arrival first_starts arrivals)
                     (map fst process_dict) of
                Inl e \<Rightarrow> Inl e
              | Inr response_times \<Rightarrow>
                  with_averages waiting_times turnaround_times response_times))"

section \<open>The driver\<close>

text \<open>
  \<^verbatim>\<open>run_simulation\<close> (lines 228-253). The policy is selected by name; a name outside the
  six leaves \<^verbatim>\<open>schedule\<close> unbound, and line 248 raises \<^verbatim>\<open>UnboundLocalError\<close>. Line 248
  reads \<^verbatim>\<open>schedule[-1]\<close> (\<^verbatim>\<open>IndexError\<close> on an empty schedule) and then takes the minimum
  arrival (\<^verbatim>\<open>ValueError\<close> on an empty process list).
\<close>

type_synonym simulation = "segment list \<times> report \<times> number \<times> number"

definition with_metrics ::
    "(segment list \<Rightarrow> process list \<Rightarrow> py_error + report) \<Rightarrow> process list \<Rightarrow>
     segment list outcome \<Rightarrow> (segment list \<times> report) outcome" where
  "with_metrics calc processes r =
     (case r of
        Diverges \<Rightarrow> Diverges
      | Raises e \<Rightarrow> Raises e
      | Returns schedule \<Rightarrow>
          (case calc schedule processes of
             Inl e \<Rightarrow> Raises e
           | Inr rep \<Rightarrow> Returns (schedule, rep)))"

text \<open>
  Lines 248-253. \<^verbatim>\<open>busy_time / total_time\<close> and \<^verbatim>\<open>len(processes) / total_time\<close> divide
  integers into a float; the product with 100 is a product of floats.
\<close>

definition aggregate :: "process list \<Rightarrow> segment list \<times> report \<Rightarrow> simulation outcome" where
  "aggregate processes = (\<lambda>(schedule, rep).
     if schedule = [] then Raises IndexError
     else if processes = [] then Raises ValueError
     else
       let total_time = s_end (last schedule) - min_list (map p_arrival processes);
           busy_time = sum_list (map p_burst processes)
       in case (if total_time > 0 then
                  (case int_truediv busy_time total_time of
                     Inl e \<Rightarrow> Inl e
                   | Inr q \<Rightarrow> Inr (PyFloat (times_100 q)))
                else Inr (PyInt 0)) of
            Inl e \<Rightarrow> Raises e
          | Inr cpu_util \<Rightarrow>
              (case (if total_time > 0 then
                       (case int_truediv (int (length processes)) total_time of
                          Inl e \<Rightarrow> Inl e
                        | Inr q \<Rightarrow> Inr (PyFloat q))
                     else Inr (PyInt 0)) of
                 Inl e \<Rightarrow> Raises e
               | Inr throughput \<Rightarrow> Returns (schedule, rep, cpu_util, throughput)))"

definition run_simulation :: "process list \<Rightarrow> string \<Rightarrow> int \<Rightarrow> simulation outcome" where
  "run_simulation processes algo quantum =
     (let r =
        (if algo = ''FCFS'' then
           with_metrics calculate_waiting_time processes (Returns (fcfs_scheduling processes))
         else if algo = ''SJN'' then
           with_metrics calculate_waiting_time processes (sjn_scheduling processes)
         else if algo = ''SJN with Preemption'' then
           with_metrics calculate_preemptive_waiting_time processes
             (sjn_preemptive_scheduling processes)
         else if algo = ''Round Robin'' then
           with_metrics calculate_preemptive_waiting_time processes
             (round_robin_scheduling processes quantum)
         else if algo = ''Priority'' then
           with_metrics calculate_waiting_time processes (Returns (priority_scheduling processes))
         else if algo = ''Priority with Preemption'' then
           with_metrics calculate_preemptive_waiting_time processes
             (priority_preemptive_scheduling processes)
         else Raises UnboundLocalError)
      in case r of
           Diverges \<Rightarrow> Diverges
         | Raises e \<Rightarrow> Raises e
         | Returns sr \<Rightarrow> aggregate processes sr)"

section \<open>The vocabulary of the properties\<close>

text \<open>
  A valid process set, as the data model has it: not empty, unique ids, arrivals from 0,
  bursts and priorities from 1.
\<close>

definition valid_process_set :: "process list \<Rightarrow> bool" where
  "valid_process_set processes \<longleftrightarrow>
     processes \<noteq> [] \<and> distinct (map p_pid processes) \<and>
     (\<forall>p \<in> set processes. 0 \<le> p_arrival p \<and> 1 \<le> p_burst p \<and> 1 \<le> p_priority p)"

text \<open>
  A process set is within the range of a float when the latest arrival plus the sum of
  the bursts, a bound on every time of its timelines, is below \<open>float_limit\<close>.
\<close>

definition within_float_range :: "process list \<Rightarrow> bool" where
  "within_float_range processes \<longleftrightarrow>
     (\<forall>p \<in> set processes. p_arrival p + sum_list (map p_burst processes) < float_limit)"

text \<open>The duration of a segment, and the time a timeline gives to the process id \<open>x\<close>.\<close>

definition duration :: "segment \<Rightarrow> int" where
  "duration s = s_end s - s_start s"

definition exec_time :: "string \<Rightarrow> segment list \<Rightarrow> int" where
  "exec_time x timeline = sum_list (map duration (filter (\<lambda>s. s_pid s = x) timeline))"

text \<open>
  Two segments overlap when their half-open intervals share a point of time; a timeline
  has no overlap when no two of its segments do.
\<close>

definition overlaps :: "segment \<Rightarrow> segment \<Rightarrow> bool" where
  "overlaps a b \<longleftrightarrow> max (s_start a) (s_start b) < min (s_end a) (s_end b)"

definition no_overlap :: "segment list \<Rightarrow> bool" where
  "no_overlap timeline = sorted_wrt (\<lambda>a b. \<not> overlaps a b) timeline"

text \<open>A call returns, and what it returns satisfies \<open>P\<close>.\<close>

definition returns_with :: "'a outcome \<Rightarrow> ('a \<Rightarrow> bool) \<Rightarrow> bool" where
  "returns_with r P = (case r of Returns x \<Rightarrow> P x | Raises e \<Rightarrow> False | Diverges \<Rightarrow> False)"

text \<open>
  The timelines of a process set with one process: \<open>n\<close> consecutive unit segments from
  \<open>start\<close>, and consecutive segments of one quantum each (the last one possibly shorter)
  that cover a burst \<open>b\<close> from \<open>start\<close>.
\<close>

definition unit_segments :: "string \<Rightarrow> int \<Rightarrow> int \<Rightarrow> segment list" where
  "unit_segments pid start n = map (\<lambda>i. (pid, start + int i, start + int i + 1)) [0..<nat n]"

definition quantum_segments :: "string \<Rightarrow> int \<Rightarrow> int \<Rightarrow> int \<Rightarrow> segment list" where
  "quantum_segments pid start b q =
     map (\<lambda>i. (pid, start + int i * q, start + min b ((int i + 1) * q)))
       [0..<nat ((b + q - 1) div q)]"

text \<open>
  The start of the first and the end of the last segment that a timeline gives to the
  process id \<open>x\<close>, and the invariant of the loop of lines 179-189 after the segments
  \<open>seen\<close>: the dictionaries hold the first start and the last end of every id seen so far,
  and for an id of the process set the waiting time is the first wait (never negative)
  plus the gaps between its segments.
\<close>

definition first_start :: "string \<Rightarrow> segment list \<Rightarrow> int" where
  "first_start x timeline = s_start (hd (filter (\<lambda>s. s_pid s = x) timeline))"

definition last_end :: "string \<Rightarrow> segment list \<Rightarrow> int" where
  "last_end x timeline = s_end (last (filter (\<lambda>s. s_pid s = x) timeline))"

definition frag_inv :: "(int \<times> int) dict \<Rightarrow> segment list \<Rightarrow> frag_state \<Rightarrow> bool" where
  "frag_inv pd seen = (\<lambda>(waiting_times, first_starts, completion_times, last_ends).
     \<forall>x. (if x \<in> s_pid ` set seen
           then map_of first_starts x = Some (first_start x seen) \<and>
                map_of completion_times x = Some (last_end x seen)
           else map_of first_starts x = None \<and> map_of completion_times x = None) \<and>
          (case map_of pd x of
             None \<Rightarrow> map_of waiting_times x = None \<and> map_of last_ends x = None
           | Some (arrival, burst) \<Rightarrow>
               if x \<in> s_pid ` set seen
               then map_of last_ends x = Some (last_end x seen) \<and>
                    map_of waiting_times x =
                      Some (max 0 (first_start x seen - arrival) +
                            (last_end x seen - first_start x seen - exec_time x seen))
               else map_of waiting_times x = None \<and> map_of last_ends x = None))"

text \<open>
  The mean of a list of integers is within the range of a float. The calculators divide
  the sum of a dictionary's values by their number.
\<close>

definition mean_fits :: "int list \<Rightarrow> bool" where
  "mean_fits xs \<longleftrightarrow> \<not> float_overflow (of_int (sum_list xs) / of_int (int (length xs)))"


section \<open>Invariants of the simulation loops\<close>

text \<open>
  \<open>total_for key w x xs\<close> adds \<open>w\<close> over the entries of \<open>xs\<close> whose key is \<open>x\<close>: the burst
  a process list holds for a process id, or the remaining time a queue holds for it.
  \<open>in_order t sch\<close>: every segment ends before the next one starts, and all end by \<open>t\<close>.
  \<open>after_arrival ps sch\<close>: every segment belongs to a process of \<open>ps\<close> and starts no earlier
  than that process arrives. The remaining definitions are the loop invariants and the
  termination measures of the four \<^verbatim>\<open>while\<close> loops.
\<close>

definition total_for :: "('a \<Rightarrow> string) \<Rightarrow> ('a \<Rightarrow> int) \<Rightarrow> string \<Rightarrow> 'a list \<Rightarrow> int" where
  "total_for key w x xs = sum_list (map w (filter (\<lambda>a. key a = x) xs))"

abbreviation (input) "arrived t \<equiv> (\<lambda>p. p_arrival p \<le> t)"

definition in_order :: "int \<Rightarrow> segment list \<Rightarrow> bool" where
  "in_order t sch \<longleftrightarrow> sorted_wrt (\<lambda>a b. s_end a \<le> s_start b) sch \<and> (\<forall>s \<in> set sch. s_end s \<le> t)"

definition after_arrival :: "process list \<Rightarrow> segment list \<Rightarrow> bool" where
  "after_arrival ps0 sch \<longleftrightarrow>
     (\<forall>s \<in> set sch. \<exists>p \<in> set ps0. p_pid p = s_pid s \<and> p_arrival p \<le> s_start s)"

definition sjn_conserves :: "process list \<Rightarrow> sjn_state \<Rightarrow> bool" where
  "sjn_conserves ps0 = (\<lambda>(ps, rq, t, sch).
     \<forall>x. exec_time x sch + total_for p_pid p_burst x ps + total_for p_pid p_burst x rq
          = total_for p_pid p_burst x ps0)"

definition sjn_timed :: "process list \<Rightarrow> sjn_state \<Rightarrow> bool" where
  "sjn_timed ps0 = (\<lambda>(ps, rq, t, sch).
     set ps \<subseteq> set ps0 \<and> set rq \<subseteq> set ps0 \<and> (\<forall>p \<in> set rq. p_arrival p \<le> t) \<and>
     in_order t sch \<and> after_arrival ps0 sch)"



definition sjn_measure :: "sjn_state \<Rightarrow> nat" where
  "sjn_measure = (\<lambda>(ps, rq, t, sch).
     2 * (length ps + length rq) + (if ps \<noteq> [] \<and> t < p_arrival (hd ps) then 1 else 0))"

definition rr_conserves :: "process list \<Rightarrow> rr_state \<Rightarrow> bool" where
  "rr_conserves ps0 = (\<lambda>(queue, t, sch).
     \<forall>x. exec_time x sch + total_for p_pid p_burst x queue = total_for p_pid p_burst x ps0)"

definition rr_timed :: "process list \<Rightarrow> rr_state \<Rightarrow> bool" where
  "rr_timed ps0 = (\<lambda>(queue, t, sch).
     (\<forall>p \<in> set queue. 0 \<le> p_burst p \<and> (\<exists>p0 \<in> set ps0. p_pid p0 = p_pid p \<and> p_arrival p0 = p_arrival p)) \<and>
     in_order t sch \<and> after_arrival ps0 sch)"

text \<open>Only a segment that is the last of its process may differ from the quantum.\<close>

definition full_until_last :: "int \<Rightarrow> segment list \<Rightarrow> bool" where
  "full_until_last quantum sch = sorted_wrt (\<lambda>a b. s_pid a = s_pid b \<longrightarrow> duration a = quantum) sch"

definition rr_sliced :: "int \<Rightarrow> rr_state \<Rightarrow> bool" where
  "rr_sliced quantum = (\<lambda>(queue, t, sch).
     distinct (map p_pid queue) \<and> (\<forall>p \<in> set queue. 1 \<le> p_burst p) \<and>
     (\<forall>s \<in> set sch. 1 \<le> duration s \<and> duration s \<le> quantum) \<and>
     (\<forall>s \<in> set sch. duration s \<noteq> quantum \<longrightarrow> s_pid s \<notin> p_pid ` set queue) \<and>
     full_until_last quantum sch)"

definition rr_measure :: "rr_state \<Rightarrow> nat" where
  "rr_measure = (\<lambda>(queue, t, sch). sum_list (map (\<lambda>p. nat (p_burst p) + 1) queue))"

abbreviation (input) "arrived_w t \<equiv> (\<lambda>p. w_arrival p \<le> t)"

definition active_items :: "work option \<Rightarrow> work list" where
  "active_items act = (case act of None \<Rightarrow> [] | Some w \<Rightarrow> [w])"

definition pre_select :: "rank \<Rightarrow> work option \<Rightarrow> work list \<Rightarrow> work option \<times> work list" where
  "pre_select r active_process ready_queue =
     (if active_process = None \<and> ready_queue \<noteq> [] then
        (Some (hd (sort_key (rank_key r) ready_queue)), tl (sort_key (rank_key r) ready_queue))
      else (active_process, ready_queue))"

text \<open>Lines 64-79: what follows the executed slice, given the new clock and the new remaining time.\<close>

definition pre_after :: "rank \<Rightarrow> work \<Rightarrow> work list \<Rightarrow> work list \<Rightarrow> int \<Rightarrow> segment list \<Rightarrow> pre_state" where
  "pre_after r w' processes ready_queue t' schedule' =
     (let new_arrivals = filter (\<lambda>p. w_arrival p \<le> t') processes;
          later = filter (\<lambda>p. w_arrival p > t') processes;
          sorted_queue = sort_key (rank_key r) (ready_queue @ new_arrivals)
      in if new_arrivals \<noteq> [] then
           if preempts r (hd sorted_queue) (w_remaining w') (w_priority w') then
             (later, tl sorted_queue @ [w'], Some (hd sorted_queue), t', schedule')
           else if w_remaining w' = 0 then (later, sorted_queue, None, t', schedule')
           else (later, sorted_queue, Some w', t', schedule')
         else if w_remaining w' = 0 then (processes, ready_queue, None, t', schedule')
         else (processes, ready_queue, Some w', t', schedule'))"

definition pre_conserves :: "process list \<Rightarrow> pre_state \<Rightarrow> bool" where
  "pre_conserves ps0 = (\<lambda>(ps, rq, act, t, sch).
     \<forall>x. exec_time x sch + total_for w_pid w_remaining x (ps @ rq @ active_items act)
          = total_for p_pid p_burst x ps0)"

definition pre_timed :: "process list \<Rightarrow> pre_state \<Rightarrow> bool" where
  "pre_timed ps0 = (\<lambda>(ps, rq, act, t, sch).
     (\<forall>v \<in> set (ps @ rq @ active_items act).
        0 \<le> w_remaining v \<and> (\<exists>p0 \<in> set ps0. p_pid p0 = w_pid v \<and> p_arrival p0 = w_arrival v)) \<and>
     (\<forall>v \<in> set (rq @ active_items act). w_arrival v \<le> t) \<and>
     in_order t sch \<and> after_arrival ps0 sch)"

definition pre_work :: "pre_state \<Rightarrow> nat" where
  "pre_work = (\<lambda>(ps, rq, act, t, sch).
     sum_list (map (\<lambda>v. nat (w_remaining v) + 1) (ps @ rq @ active_items act)) + length ps)"

definition pre_wait :: "pre_state \<Rightarrow> nat" where
  "pre_wait = (\<lambda>(ps, rq, act, t, sch). nat (w_arrival (hd ps) - t))"

definition pre_order :: "(pre_state \<times> pre_state) set" where
  "pre_order = inv_image (less_than <*lex*> less_than) (\<lambda>s. (pre_work s, pre_wait s))"

text \<open>
  \<open>pre_bounded lo hi\<close>: the clock stays between \<open>lo\<close> and \<open>hi\<close>, with room below \<open>hi\<close> for
  the work that is left. \<open>pre_covers ps0\<close>: every process of \<open>ps0\<close> has a segment or is still
  held by the loop.
\<close>

definition work_left :: "work list \<Rightarrow> int" where
  "work_left ws = sum_list (map w_remaining ws)"

definition pre_bounded :: "int \<Rightarrow> int \<Rightarrow> pre_state \<Rightarrow> bool" where
  "pre_bounded lo hi = (\<lambda>(ps, rq, act, t, sch).
     lo \<le> t \<and> t + work_left (ps @ rq @ active_items act) \<le> hi \<and>
     (\<forall>v \<in> set ps. w_arrival v + work_left (ps @ rq @ active_items act) \<le> hi))"


abbreviation (input) "to_work \<equiv> (\<lambda>(pid, arrival, burst, priority). (pid, arrival, burst, burst, priority))"

section \<open>Evaluation\<close>

lemma loop_try_unfold:
  "loop_try b c s =
     (if b s then (case c s of Inl e \<Rightarrow> Some (Inl e) | Inr s' \<Rightarrow> loop_try b c s')
      else Some (Inr s))"
proof (cases "b s")
  case False
  then show ?thesis unfolding loop_try_def by (subst while_loop.simps) simp
next
  case True
  show ?thesis
  proof (cases "c s")
    case (Inl e)
    with True show ?thesis unfolding loop_try_def
      by (subst while_loop.simps, subst while_loop.simps) simp
  next
    case (Inr s')
    with True show ?thesis unfolding loop_try_def by (subst while_loop.simps) simp
  qed
qed

lemmas float_defs = float_of_int_def int_truediv_def times_100_def to_float_def
  float_overflow_def float_limit_def nearest_float_def round_half_even_def exponent_of_def
  pow2_def bit_length.simps

lemmas run_defs = sjn_scheduling_def sjn_cond_def sjn_body_def returning_def completing_def
  preemptive_scheduling_def sjn_preemptive_scheduling_def priority_preemptive_scheduling_def
  pre_cond_def pre_body_def next_arrival_of_def time_slice_of_def
  round_robin_scheduling_def rr_cond_def rr_body_def while_loop.simps loop_try_unfold
  float_of_int_def float_overflow_def float_limit_def

lemmas calc_defs = calculate_waiting_time_def calculate_preemptive_waiting_time_def
  dict_comprehension_def minus_arrival_def dict_get_def with_averages_def average_def Let_def
  float_defs

lemmas sim_defs = run_simulation_def with_metrics_def aggregate_def fcfs_scheduling_def
  priority_scheduling_def

section \<open>The loops, step by step\<close>

lemma while_loop_total:
  assumes "wf R" and "I s" and step: "\<And>s. I s \<Longrightarrow> b s \<Longrightarrow> I (c s) \<and> (c s, s) \<in> R"
  shows "\<exists>t. while_loop b c s = Some t \<and> I t \<and> \<not> b t"
  using assms(1,2)
proof (induction s rule: wf_induct_rule)
  case (less s)
  show ?case
  proof (cases "b s")
    case True
    with less.prems step have "I (c s)" "(c s, s) \<in> R" by auto
    from less.IH[OF this(2) this(1)] obtain t where "while_loop b c (c s) = Some t \<and> I t \<and> \<not> b t" by blast
    then show ?thesis using True by (subst while_loop.simps) simp
  next
    case False then show ?thesis using less.prems by (subst while_loop.simps) simp
  qed
qed

lemma while_loop_rule:
  assumes run: "while_loop b c s = Some t" and init: "I s"
    and step: "\<And>s. I s \<Longrightarrow> b s \<Longrightarrow> I (c s)"
  shows "I t \<and> \<not> b t"
proof -
  let ?P = "\<lambda>b' c' s t. b' = b \<longrightarrow> c' = c \<longrightarrow> I s \<longrightarrow> I t \<and> \<not> b t"
  have "?P b c s t"
  proof (rule while_loop.raw_induct[where P = ?P, OF _ run])
    fix w b' c' s t
    assume IH: "\<And>b' c' s t. w b' c' s = Some t \<Longrightarrow> ?P b' c' s t"
      and eq: "(if b' s then w b' c' (c' s) else Some s) = Some t"
    show "?P b' c' s t"
    proof (intro impI)
      assume b': "b' = b" and c': "c' = c" and "I s"
      show "I t \<and> \<not> b t"
      proof (cases "b s")
        case True
        with eq b' c' have "w b c (c s) = Some t" by simp
        from IH[OF this] step[OF \<open>I s\<close> True] show ?thesis by simp
      next
        case False
        with eq b' \<open>I s\<close> show ?thesis by simp
      qed
    qed
  qed
  with init show ?thesis by simp
qed

lemma while_loop_never:
  assumes "I s" and step: "\<And>s. I s \<Longrightarrow> b s \<and> I (c s)"
  shows "while_loop b c s = None"
proof (cases "while_loop b c s")
  case None then show ?thesis .
next
  case (Some t)
  from while_loop_rule[OF Some, of I] assms have "I t \<and> \<not> b t" by blast
  with step show ?thesis by blast
qed

lemma loop_try_total:
  assumes "wf R" and "I s"
    and step: "\<And>s s'. I s \<Longrightarrow> b s \<Longrightarrow> c s = Inr s' \<Longrightarrow> I s' \<and> (s', s) \<in> R"
  shows "(\<exists>t. loop_try b c s = Some (Inr t) \<and> I t \<and> \<not> b t) \<or>
         (\<exists>e u. loop_try b c s = Some (Inl e) \<and> I u \<and> b u \<and> c u = Inl e)"
  using assms(1,2)
proof (induction s rule: wf_induct_rule)
  case (less s)
  show ?case
  proof (cases "b s")
    case False
    then have "loop_try b c s = Some (Inr s)" by (simp add: loop_try_unfold[of b c s])
    with False less.prems show ?thesis by blast
  next
    case True
    show ?thesis
    proof (cases "c s")
      case (Inl e)
      with True have "loop_try b c s = Some (Inl e)" by (simp add: loop_try_unfold[of b c s])
      with True Inl less.prems show ?thesis by blast
    next
      case (Inr s')
      from step[OF less.prems True Inr] have "I s'" "(s', s) \<in> R" by auto
      note IH = less.IH[OF this(2,1)]
      from True Inr have "loop_try b c s = loop_try b c s'"
        by (simp add: loop_try_unfold[of b c s])
      with IH show ?thesis by simp
    qed
  qed
qed

lemma exec_time_total_for: "exec_time x sch = total_for s_pid duration x sch"
  by (simp add: exec_time_def total_for_def)

lemma total_for_Nil [simp]: "total_for k w x [] = 0"
  by (simp add: total_for_def)

lemma total_for_Cons [simp]:
  "total_for k w x (a # xs) = (if k a = x then w a else 0) + total_for k w x xs"
  by (simp add: total_for_def)

lemma total_for_append [simp]:
  "total_for k w x (xs @ ys) = total_for k w x xs + total_for k w x ys"
  by (simp add: total_for_def)

lemma total_for_insort_key [simp]:
  "total_for k w x (insort_key f a xs) = (if k a = x then w a else 0) + total_for k w x xs"
  by (induction xs) auto

lemma total_for_sort_key [simp]: "total_for k w x (sort_key f xs) = total_for k w x xs"
  by (induction xs) auto

lemma total_for_take_drop_while:
  "total_for k w x (takeWhile P xs) + total_for k w x (dropWhile P xs) = total_for k w x xs"
  by (induction xs) auto

lemma total_for_partition:
  "total_for k w x (filter P xs) + total_for k w x (filter (\<lambda>a. \<not> P a) xs) = total_for k w x xs"
  by (induction xs) auto

lemma total_for_hd_tl:
  "xs \<noteq> [] \<Longrightarrow> (if k (hd xs) = x then w (hd xs) else 0) + total_for k w x (tl xs) = total_for k w x xs"
  by (cases xs) auto

lemma total_for_distinct:
  "distinct (map k xs) \<Longrightarrow> a \<in> set xs \<Longrightarrow> total_for k w (k a) xs = w a"
proof (induction xs)
  case Nil then show ?case by simp
next
  case (Cons b xs)
  have none: "total_for k w (k b) xs = 0" if "k b \<notin> k ` set xs" for b
    using that by (induction xs) auto
  show ?case
  proof (cases "a = b")
    case True with Cons.prems none[of b] show ?thesis by simp
  next
    case False
    with Cons have "total_for k w (k a) xs = w a" "k b \<noteq> k a" by force+
    then show ?thesis by simp
  qed
qed

lemma admit_eq:
  "admit arr t ps rq = (dropWhile (\<lambda>p. arr p \<le> t) ps, rq @ takeWhile (\<lambda>p. arr p \<le> t) ps)"
  by (induction ps arbitrary: rq) auto

lemma sjn_body_run:
  assumes "rq @ takeWhile (arrived t) ps \<noteq> []"
  shows "sjn_body (ps, rq, t, sch) =
    (dropWhile (arrived t) ps, tl (sort_key p_burst (rq @ takeWhile (arrived t) ps)),
     t + p_burst (hd (sort_key p_burst (rq @ takeWhile (arrived t) ps))),
     sch @ [(p_pid (hd (sort_key p_burst (rq @ takeWhile (arrived t) ps))), t,
             t + p_burst (hd (sort_key p_burst (rq @ takeWhile (arrived t) ps))))])"
  using assms
  by (cases "hd (sort_key p_burst (rq @ takeWhile (arrived t) ps))")
     (simp add: sjn_body_def admit_eq Let_def)

lemma sjn_body_idle:
  assumes "rq = []" "ps \<noteq> []" "t < p_arrival (hd ps)"
  shows "sjn_body (ps, rq, t, sch) = (ps, [], p_arrival (hd ps), sch)"
  using assms by (cases ps) (simp_all add: sjn_body_def admit_eq)

lemma sjn_cond_cases:
  assumes "sjn_cond (ps, rq, t, sch)"
  shows "rq @ takeWhile (arrived t) ps \<noteq> [] \<or> (rq = [] \<and> ps \<noteq> [] \<and> t < p_arrival (hd ps))"
  using assms by (cases ps) (auto simp: sjn_cond_def)

lemma in_order_Nil [simp]: "in_order t []"
  by (simp add: in_order_def)

lemma in_order_snoc: "in_order t sch \<Longrightarrow> t \<le> s \<Longrightarrow> s \<le> e \<Longrightarrow> in_order e (sch @ [(x, s, e)])"
  by (fastforce simp: in_order_def sorted_wrt_append)

lemma in_order_mono: "in_order t sch \<Longrightarrow> t \<le> t' \<Longrightarrow> in_order t' sch"
  by (fastforce simp: in_order_def)

lemma in_order_no_overlap: "in_order t sch \<Longrightarrow> no_overlap sch"
  unfolding in_order_def no_overlap_def
  by (auto simp: overlaps_def elim!: sorted_wrt_mono_rel[rotated])

lemma after_arrival_Nil [simp]: "after_arrival ps0 []"
  by (simp add: after_arrival_def)

lemma after_arrival_snoc:
  "after_arrival ps0 sch \<Longrightarrow> p \<in> set ps0 \<Longrightarrow> p_arrival p \<le> s \<Longrightarrow>
   after_arrival ps0 (sch @ [(p_pid p, s, e)])"
  by (auto simp: after_arrival_def)

lemma sort_key_ne: "xs \<noteq> [] \<Longrightarrow> sort_key f xs \<noteq> []"
  by (metis length_0_conv length_sort)

lemma hd_sort_key_in: "xs \<noteq> [] \<Longrightarrow> hd (sort_key f xs) \<in> set xs"
  by (metis hd_in_set set_sort sort_key_ne)

lemma tl_sort_key_subset: "set (tl (sort_key f xs)) \<subseteq> set xs"
  by (metis list.set_sel(2) set_sort subsetI tl_Nil)

lemma exec_time_snoc [simp]:
  "exec_time x (sch @ [(y, s, e)]) = exec_time x sch + (if y = x then e - s else 0)"
  by (simp add: exec_time_def duration_def)

lemma exec_time_Nil [simp]: "exec_time x [] = 0"
  by (simp add: exec_time_def)

lemma sjn_conserves_step:
  assumes "sjn_conserves ps0 s" "sjn_cond s"
  shows "sjn_conserves ps0 (sjn_body s)"
proof -
  obtain ps rq t sch where s: "s = (ps, rq, t, sch)" by (cases s)
  let ?q = "rq @ takeWhile (arrived t) ps"
  from sjn_cond_cases[OF assms(2)[unfolded s]]
  show ?thesis
  proof
    assume ne: "?q \<noteq> []"
    have q: "sort_key p_burst ?q \<noteq> []" by (rule sort_key_ne[OF ne])
    have F: "exec_time x (sch @ [(p_pid (hd (sort_key p_burst ?q)), t, t + p_burst (hd (sort_key p_burst ?q)))]) +
         total_for p_pid p_burst x (dropWhile (arrived t) ps) +
         total_for p_pid p_burst x (tl (sort_key p_burst ?q)) = total_for p_pid p_burst x ps0" for x
    proof -
      from assms(1) s have inv: "exec_time x sch + total_for p_pid p_burst x ps + total_for p_pid p_burst x rq
          = total_for p_pid p_burst x ps0" by (simp add: sjn_conserves_def)
      have a: "total_for p_pid p_burst x (takeWhile (arrived t) ps) + total_for p_pid p_burst x (dropWhile (arrived t) ps) = total_for p_pid p_burst x ps"
        by (rule total_for_take_drop_while)
      have b: "(if p_pid (hd (sort_key p_burst ?q)) = x then p_burst (hd (sort_key p_burst ?q)) else 0)
          + total_for p_pid p_burst x (tl (sort_key p_burst ?q)) = total_for p_pid p_burst x ?q"
        using total_for_hd_tl[OF q, of p_pid x p_burst] by simp
      from inv a b show ?thesis by (simp split: if_splits)
    qed
    show ?thesis
      unfolding s sjn_body_run[OF ne] sjn_conserves_def split_conv using F by blast
  next
    assume "rq = [] \<and> ps \<noteq> [] \<and> t < p_arrival (hd ps)"
    then show ?thesis using assms(1) unfolding s by (simp add: sjn_body_idle sjn_conserves_def)
  qed
qed

lemma sjn_timed_step:
  assumes nonneg: "\<forall>p \<in> set ps0. 0 \<le> p_burst p"
    and "sjn_timed ps0 s" "sjn_cond s"
  shows "sjn_timed ps0 (sjn_body s)"
proof -
  obtain ps rq t sch where s: "s = (ps, rq, t, sch)" by (cases s)
  let ?q = "rq @ takeWhile (arrived t) ps"
  let ?h = "hd (sort_key p_burst ?q)"
  from assms(2) s have inv: "set ps \<subseteq> set ps0" "set rq \<subseteq> set ps0" "\<forall>p \<in> set rq. p_arrival p \<le> t"
    "in_order t sch" "after_arrival ps0 sch" by (auto simp: sjn_timed_def)
  from sjn_cond_cases[OF assms(3)[unfolded s]]
  show ?thesis
  proof
    assume ne: "?q \<noteq> []"
    have qsub: "set ?q \<subseteq> set ps0" using inv(1,2) by (auto dest: set_takeWhileD)
    have qarr: "\<forall>p \<in> set ?q. p_arrival p \<le> t" using inv(3) by (auto dest: set_takeWhileD)
    have h: "?h \<in> set ?q" by (rule hd_sort_key_in[OF ne])
    with qsub qarr nonneg have h0: "?h \<in> set ps0" "p_arrival ?h \<le> t" "0 \<le> p_burst ?h" by auto
    have tlq: "set (tl (sort_key p_burst ?q)) \<subseteq> set ?q" by (rule tl_sort_key_subset)
    have 1: "set (dropWhile (arrived t) ps) \<subseteq> set ps0" using inv(1) by (auto dest: set_dropWhileD)
    have 2: "set (tl (sort_key p_burst ?q)) \<subseteq> set ps0" using tlq qsub by blast
    have 3: "\<forall>p \<in> set (tl (sort_key p_burst ?q)). p_arrival p \<le> t + p_burst ?h"
      using tlq qarr h0(3) by fastforce
    have 4: "in_order (t + p_burst ?h) (sch @ [(p_pid ?h, t, t + p_burst ?h)])"
      using in_order_snoc[OF inv(4), of t "t + p_burst ?h"] h0(3) by simp
    have 5: "after_arrival ps0 (sch @ [(p_pid ?h, t, t + p_burst ?h)])"
      by (rule after_arrival_snoc[OF inv(5) h0(1,2)])
    show ?thesis unfolding s sjn_body_run[OF ne] sjn_timed_def using 1 2 3 4 5 by simp
  next
    assume idle: "rq = [] \<and> ps \<noteq> [] \<and> t < p_arrival (hd ps)"
    then have "in_order (p_arrival (hd ps)) sch" using in_order_mono[OF inv(4)] by simp
    with idle inv show ?thesis unfolding s by (simp add: sjn_body_idle sjn_timed_def)
  qed
qed

lemma sjn_measure_less:
  "length ps' + length rq' < length ps + length rq \<Longrightarrow>
   sjn_measure (ps', rq', t', sch') < sjn_measure (ps, rq, t, sch)"
  by (auto simp: sjn_measure_def)

lemma sjn_measure_step:
  assumes "sjn_cond s"
  shows "sjn_measure (sjn_body s) < sjn_measure s"
proof -
  obtain ps rq t sch where s: "s = (ps, rq, t, sch)" by (cases s)
  let ?q = "rq @ takeWhile (arrived t) ps"
  from sjn_cond_cases[OF assms[unfolded s]]
  show ?thesis
  proof
    assume ne: "?q \<noteq> []"
    have "length (takeWhile (arrived t) ps) + length (dropWhile (arrived t) ps) = length ps"
      by (metis length_append takeWhile_dropWhile_id)
    moreover have "length (tl (sort_key p_burst ?q)) < length ?q" using ne by simp
    ultimately have "length (dropWhile (arrived t) ps) + length (tl (sort_key p_burst ?q))
        < length ps + length rq" by simp
    then show ?thesis unfolding s sjn_body_run[OF ne] by (rule sjn_measure_less)
  next
    assume idle: "rq = [] \<and> ps \<noteq> [] \<and> t < p_arrival (hd ps)"
    then show ?thesis unfolding s by (simp add: sjn_body_idle sjn_measure_def)
  qed
qed

lemma sjn_loop_total:
  "\<exists>st. while_loop sjn_cond sjn_body s = Some st \<and> \<not> sjn_cond st"
  using while_loop_total[of "measure sjn_measure" "\<lambda>_. True" s sjn_cond sjn_body]
  by (simp add: sjn_measure_step)

lemma sjn_scheduling_facts:
  obtains sch t where "sjn_scheduling ps0 = Returns sch"
    "\<And>x. exec_time x sch = total_for p_pid p_burst x ps0"
    "(\<forall>p \<in> set ps0. 0 \<le> p_burst p) \<Longrightarrow> in_order t sch \<and> after_arrival ps0 sch"
proof -
  let ?s0 = "(ps0, [], 0::int, []::segment list)"
  from sjn_loop_total[of ?s0] obtain st where run: "while_loop sjn_cond sjn_body ?s0 = Some st"
    and stop: "\<not> sjn_cond st" by blast
  obtain ps rq t sch where st: "st = (ps, rq, t, sch)" by (cases st)
  from stop st have e: "ps = []" "rq = []" by (auto simp: sjn_cond_def)
  have "sjn_conserves ps0 st"
    using while_loop_rule[OF run, of "sjn_conserves ps0"] sjn_conserves_step
    by (simp add: sjn_conserves_def)
  with st e have c: "\<And>x. exec_time x sch = total_for p_pid p_burst x ps0"
    by (simp add: sjn_conserves_def)
  have tm: "in_order t sch \<and> after_arrival ps0 sch" if "\<forall>p \<in> set ps0. 0 \<le> p_burst p"
  proof -
    have "sjn_timed ps0 st"
      using while_loop_rule[OF run, of "sjn_timed ps0"] sjn_timed_step[OF that]
      by (simp add: sjn_timed_def)
    with st show ?thesis by (simp add: sjn_timed_def)
  qed
  have "sjn_scheduling ps0 = Returns sch" by (simp add: sjn_scheduling_def returning_def run st)
  with c tm that show thesis by blast
qed

lemma rr_body_eq:
  "rr_body q ((pid, a, b, pr) # rest, t, sch) =
     (if b - min q b > 0 then rest @ [(pid, a, b - min q b, pr)] else rest,
      max t a + min q b, sch @ [(pid, max t a, max t a + min q b)])"
  by (simp add: rr_body_def Let_def)

lemma rr_conserves_step:
  assumes "rr_conserves ps0 s" "rr_cond s"
  shows "rr_conserves ps0 (rr_body q s)"
proof -
  obtain queue t sch where s: "s = (queue, t, sch)" by (cases s)
  with assms(2) obtain pid a b pr rest where qu: "queue = (pid, a, b, pr) # rest"
    by (cases queue) (auto simp: rr_cond_def)
  have F: "exec_time x (sch @ [(pid, max t a, max t a + min q b)]) +
        total_for p_pid p_burst x (if b - min q b > 0 then rest @ [(pid, a, b - min q b, pr)] else rest)
      = total_for p_pid p_burst x ps0" for x
  proof -
    from assms(1) have "exec_time x sch + total_for p_pid p_burst x ((pid, a, b, pr) # rest)
      = total_for p_pid p_burst x ps0" unfolding s qu rr_conserves_def by simp
    then show ?thesis by (cases "b - min q b > 0") (auto split: if_splits)
  qed
  show ?thesis
    unfolding s qu rr_body_eq rr_conserves_def split_conv using F by blast
qed

lemma rr_timed_step:
  assumes q: "0 \<le> q" and "rr_timed ps0 s" "rr_cond s"
  shows "rr_timed ps0 (rr_body q s)"
proof -
  obtain queue t sch where s: "s = (queue, t, sch)" by (cases s)
  with assms(3) obtain pid a b pr rest where qu: "queue = (pid, a, b, pr) # rest"
    by (cases queue) (auto simp: rr_cond_def)
  from assms(2) have inv: "\<forall>p \<in> set rest. 0 \<le> p_burst p \<and> (\<exists>p0 \<in> set ps0. p_pid p0 = p_pid p \<and> p_arrival p0 = p_arrival p)"
    "0 \<le> b" "\<exists>p0 \<in> set ps0. p_pid p0 = pid \<and> p_arrival p0 = a" "in_order t sch" "after_arrival ps0 sch"
    unfolding s qu rr_timed_def by auto
  from inv(3) obtain p0 where p0: "p0 \<in> set ps0" "p_pid p0 = pid" "p_arrival p0 = a" by blast
  have sl: "0 \<le> min q b" using q inv(2) by simp
  have 1: "in_order (max t a + min q b) (sch @ [(pid, max t a, max t a + min q b)])"
    using in_order_snoc[OF inv(4), of "max t a" "max t a + min q b"] sl by simp
  have 2: "after_arrival ps0 (sch @ [(pid, max t a, max t a + min q b)])"
    using after_arrival_snoc[OF inv(5) p0(1), of "max t a"] p0 by simp
  show ?thesis unfolding s qu rr_body_eq rr_timed_def using inv(1,3) 1 2 by auto
qed

lemma full_until_last_snoc:
  "full_until_last q sch \<Longrightarrow> (\<forall>s \<in> set sch. duration s \<noteq> q \<longrightarrow> s_pid s \<noteq> pid) \<Longrightarrow>
   full_until_last q (sch @ [(pid, s, e)])"
  by (auto simp: full_until_last_def sorted_wrt_append)

lemma rr_sliced_step:
  assumes q: "1 \<le> q" and "rr_sliced q s" "rr_cond s"
  shows "rr_sliced q (rr_body q s)"
proof -
  obtain queue t sch where s: "s = (queue, t, sch)" by (cases s)
  with assms(3) obtain pid a b pr rest where qu: "queue = (pid, a, b, pr) # rest"
    by (cases queue) (auto simp: rr_cond_def)
  from assms(2) have inv: "pid \<notin> p_pid ` set rest" "distinct (map p_pid rest)"
    "1 \<le> b" "\<forall>p \<in> set rest. 1 \<le> p_burst p"
    "\<forall>s \<in> set sch. 1 \<le> duration s \<and> duration s \<le> q"
    "\<forall>s \<in> set sch. duration s \<noteq> q \<longrightarrow> s_pid s \<noteq> pid \<and> s_pid s \<notin> p_pid ` set rest"
    "full_until_last q sch"
    unfolding s qu rr_sliced_def by auto
  have f: "full_until_last q (sch @ [(pid, max t a, max t a + min q b)])"
    using full_until_last_snoc[OF inv(7)] inv(6) by blast
  show ?thesis
  proof (cases "b - min q b > 0")
    case True
    then have m: "min q b = q" by simp
    show ?thesis unfolding s qu rr_body_eq rr_sliced_def
      using True inv f q by (auto simp: duration_def m)
  next
    case False
    then have m: "min q b = b" "b \<le> q" by simp_all
    show ?thesis unfolding s qu rr_body_eq rr_sliced_def
      using False inv f q by (auto simp: duration_def m)
  qed
qed

lemma rr_measure_step:
  assumes q: "1 \<le> q" and "rr_cond s"
  shows "rr_measure (rr_body q s) < rr_measure s"
proof -
  obtain queue t sch where s: "s = (queue, t, sch)" by (cases s)
  with assms(2) obtain pid a b pr rest where qu: "queue = (pid, a, b, pr) # rest"
    by (cases queue) (auto simp: rr_cond_def)
  show ?thesis unfolding s qu rr_body_eq rr_measure_def using q by auto
qed

lemma rr_loop_total:
  "1 \<le> q \<Longrightarrow> \<exists>st. while_loop rr_cond (rr_body q) s = Some st \<and> \<not> rr_cond st"
  using while_loop_total[of "measure rr_measure" "\<lambda>_. True" s rr_cond "rr_body q"]
  by (simp add: rr_measure_step)

lemma round_robin_facts:
  assumes q: "1 \<le> q"
  obtains sch t where "round_robin_scheduling ps0 q = Returns sch"
    "\<And>x. exec_time x sch = total_for p_pid p_burst x ps0"
    "(\<forall>p \<in> set ps0. 0 \<le> p_burst p) \<Longrightarrow> in_order t sch \<and> after_arrival ps0 sch"
    "distinct (map p_pid ps0) \<Longrightarrow> (\<forall>p \<in> set ps0. 1 \<le> p_burst p) \<Longrightarrow>
       (\<forall>s \<in> set sch. 1 \<le> duration s \<and> duration s \<le> q) \<and> full_until_last q sch"
proof -
  let ?s0 = "(ps0, 0::int, []::segment list)"
  from rr_loop_total[OF q, of ?s0] obtain st where run: "while_loop rr_cond (rr_body q) ?s0 = Some st"
    and stop: "\<not> rr_cond st" by blast
  obtain queue t sch where st: "st = (queue, t, sch)" by (cases st)
  from stop st have e: "queue = []" by (auto simp: rr_cond_def)
  have "rr_conserves ps0 st"
    using while_loop_rule[OF run, of "rr_conserves ps0"] rr_conserves_step
    by (simp add: rr_conserves_def)
  with st e have c: "\<And>x. exec_time x sch = total_for p_pid p_burst x ps0"
    by (simp add: rr_conserves_def)
  have tm: "in_order t sch \<and> after_arrival ps0 sch" if "\<forall>p \<in> set ps0. 0 \<le> p_burst p"
  proof -
    have "0 \<le> q" using q by simp
    from that have "rr_timed ps0 ?s0" by (auto simp: rr_timed_def)
    from while_loop_rule[OF run, of "rr_timed ps0", OF this] rr_timed_step[OF \<open>0 \<le> q\<close>]
    have "rr_timed ps0 st" by blast
    with st show ?thesis by (simp add: rr_timed_def)
  qed
  have sl: "(\<forall>s \<in> set sch. 1 \<le> duration s \<and> duration s \<le> q) \<and> full_until_last q sch"
    if "distinct (map p_pid ps0)" "\<forall>p \<in> set ps0. 1 \<le> p_burst p"
  proof -
    from that have "rr_sliced q ?s0" by (auto simp: rr_sliced_def full_until_last_def)
    from while_loop_rule[OF run, of "rr_sliced q", OF this] rr_sliced_step[OF q]
    have "rr_sliced q st" by blast
    with st show ?thesis by (simp add: rr_sliced_def)
  qed
  have "round_robin_scheduling ps0 q = Returns sch"
    by (simp add: round_robin_scheduling_def returning_def run st)
  with c tm sl that show thesis by blast
qed





lemma run_to_completion_exec:
  "exec_time x (run_to_completion ps t sch) = exec_time x sch + total_for p_pid p_burst x ps"
  by (induction ps t sch rule: run_to_completion.induct) (auto simp: Let_def)

lemma run_to_completion_in_order:
  "\<forall>p \<in> set ps. 0 \<le> p_burst p \<Longrightarrow> in_order t sch \<Longrightarrow> \<exists>t'. in_order t' (run_to_completion ps t sch)"
proof (induction ps t sch rule: run_to_completion.induct)
  case (1 t sch)
  then show ?case by auto
next
  case (2 pid a b pr rest t sch)
  from 2(2) have b: "0 \<le> b" by simp
  have "in_order (max t a + b) (sch @ [(pid, max t a, max t a + b)])"
    using in_order_snoc[OF 2(3), of "max t a" "max t a + b"] b by simp
  with 2(1)[OF refl refl] 2(2) show ?case by (simp add: Let_def)
qed

lemma run_to_completion_after_arrival:
  "set ps \<subseteq> set ps0 \<Longrightarrow> after_arrival ps0 sch \<Longrightarrow> after_arrival ps0 (run_to_completion ps t sch)"
proof (induction ps t sch rule: run_to_completion.induct)
  case (1 t sch)
  then show ?case by auto
next
  case (2 pid a b pr rest t sch)
  have "after_arrival ps0 (sch @ [(pid, max t a, max t a + b)])"
    using after_arrival_snoc[OF 2(3), of "(pid, a, b, pr)" "max t a"] 2(2) by simp
  with 2(1)[OF refl refl] 2(2) show ?case by (simp add: Let_def)
qed

lemma run_to_completion_pids:
  "map s_pid (run_to_completion ps t sch) = map s_pid sch @ map p_pid ps"
  by (induction ps t sch rule: run_to_completion.induct) (auto simp: Let_def)

lemma sorted_run_facts:
  fixes f :: "process \<Rightarrow> 'k::linorder"
  shows "exec_time x (run_to_completion (sort_key f ps0) 0 []) = total_for p_pid p_burst x ps0"
    and "\<forall>p \<in> set ps0. 0 \<le> p_burst p \<Longrightarrow> \<exists>t. in_order t (run_to_completion (sort_key f ps0) 0 [])"
    and "after_arrival ps0 (run_to_completion (sort_key f ps0) 0 [])"
    and "length (run_to_completion (sort_key f ps0) 0 []) = length ps0"
proof -
  show "exec_time x (run_to_completion (sort_key f ps0) 0 []) = total_for p_pid p_burst x ps0"
    by (simp add: run_to_completion_exec)
  show "\<exists>t. in_order t (run_to_completion (sort_key f ps0) 0 [])" if "\<forall>p \<in> set ps0. 0 \<le> p_burst p"
    using run_to_completion_in_order[of "sort_key f ps0" 0 "[]"] that by simp
  show "after_arrival ps0 (run_to_completion (sort_key f ps0) 0 [])"
    by (rule run_to_completion_after_arrival) simp_all
  show "length (run_to_completion (sort_key f ps0) 0 []) = length ps0"
    using arg_cong[OF run_to_completion_pids[of "sort_key f ps0" 0 "[]"], of length] by simp
qed

lemma time_slice_of_eq:
  "time_slice_of remaining na t =
     (if na = None \<and> float_overflow (of_int t) then Inl OverflowError
      else Inr (min 1 remaining))"
  by (cases na) (auto simp: time_slice_of_def float_of_int_def)

lemma sort_key_Nil_iff [simp]: "sort_key f xs = [] \<longleftrightarrow> xs = []"
  by (metis length_0_conv length_sort)

lemma pre_body_slice:
  "pre_body r (ps, rq, act, t, sch) =
     (case pre_select r act (rq @ takeWhile (arrived_w t) ps) of
        (None, rq2) \<Rightarrow> Inr (dropWhile (arrived_w t) ps, rq2, None, t + 1, sch)
      | (Some (pid, a, rem, ob, pr), rq2) \<Rightarrow>
          (case time_slice_of rem (next_arrival_of (dropWhile (arrived_w t) ps) t) t of
             Inl e \<Rightarrow> Inl e
           | Inr ts \<Rightarrow>
               Inr (pre_after r (pid, a, rem - ts, ob, pr) (dropWhile (arrived_w t) ps)
                      rq2 (t + ts) (sch @ [(pid, t, t + ts)]))))"
  by (simp add: pre_body_def pre_select_def pre_after_def admit_eq Let_def
      split: option.split prod.split sum.split)

lemma pre_body_unfold:
  "pre_body r (ps, rq, act, t, sch) =
     (case pre_select r act (rq @ takeWhile (arrived_w t) ps) of
        (None, rq2) \<Rightarrow> Inr (dropWhile (arrived_w t) ps, rq2, None, t + 1, sch)
      | (Some (pid, a, rem, ob, pr), rq2) \<Rightarrow>
          if next_arrival_of (dropWhile (arrived_w t) ps) t = None \<and> float_overflow (of_int t)
          then Inl OverflowError
          else Inr (pre_after r (pid, a, rem - min 1 rem, ob, pr) (dropWhile (arrived_w t) ps)
                      rq2 (t + min 1 rem) (sch @ [(pid, t, t + min 1 rem)])))"
proof (cases "next_arrival_of (dropWhile (arrived_w t) ps) t = None \<and> float_overflow (of_int t)")
  case True
  then have "time_slice_of rem (next_arrival_of (dropWhile (arrived_w t) ps) t) t = Inl OverflowError" for rem
    by (simp add: time_slice_of_eq)
  then show ?thesis unfolding pre_body_slice if_P[OF True]
    by (simp split: option.split prod.split)
next
  case False
  then have "time_slice_of rem (next_arrival_of (dropWhile (arrived_w t) ps) t) t = Inr (min 1 rem)" for rem
    unfolding time_slice_of_eq by simp
  then show ?thesis unfolding pre_body_slice if_not_P[OF False]
    by (simp split: option.split prod.split)
qed

lemma pre_select_summary:
  assumes "pre_select r act rq1 = (act1, rq2)"
  shows "mset rq2 + mset (active_items act1) = mset rq1 + mset (active_items act)"
    and "act1 = None \<longleftrightarrow> act = None \<and> rq1 = []"
proof -
  have *: "xs \<noteq> [] \<Longrightarrow> add_mset (hd (sort_key f xs)) (mset (tl (sort_key f xs))) = mset xs"
    for xs :: "work list" and f :: "work \<Rightarrow> int"
    by (metis list.collapse mset.simps(2) mset_sort sort_key_Nil_iff)
  show "mset rq2 + mset (active_items act1) = mset rq1 + mset (active_items act)"
    using assms[symmetric] * unfolding pre_select_def
    by (cases "act = None \<and> rq1 \<noteq> []") (simp_all add: active_items_def)
  show "act1 = None \<longleftrightarrow> act = None \<and> rq1 = []"
    using assms[symmetric] unfolding pre_select_def by (cases "act = None \<and> rq1 \<noteq> []") auto
qed

lemma pre_after_summary:
  assumes "pre_after r w' ps rq t' sch' = (ps', rq', act', t'', sch'')"
  shows "t'' = t' \<and> sch'' = sch' \<and>
         ps' = filter (\<lambda>p. t' < w_arrival p) ps \<and>
         (\<exists>keep. mset rq' + mset (active_items act') =
                   mset rq + mset (filter (\<lambda>p. w_arrival p \<le> t') ps) +
                   (if keep then {#w'#} else {#}) \<and>
                 (\<not> keep \<longrightarrow> w_remaining w' = 0) \<and>
                 (keep \<and> w_remaining w' = 0 \<longrightarrow> filter (\<lambda>p. w_arrival p \<le> t') ps \<noteq> []))"
proof -
  let ?na = "filter (\<lambda>p. w_arrival p \<le> t') ps"
  let ?q = "sort_key (rank_key r) (rq @ ?na)"
  have lat: "filter (\<lambda>p. t' < w_arrival p) ps = ps" if "?na = []"
    using that by (auto simp: filter_empty_conv filter_id_conv not_le)
  have hdtl: "add_mset (hd ?q) (mset (tl ?q)) = mset rq + mset ?na" if "?na \<noteq> []"
  proof -
    from that have "?q \<noteq> []" by simp
    then have "add_mset (hd ?q) (mset (tl ?q)) = mset ?q" by (metis list.collapse mset.simps(2))
    then show ?thesis by simp
  qed
  consider (A) "?na \<noteq> []" "preempts r (hd ?q) (w_remaining w') (w_priority w')"
    | (B) "?na \<noteq> []" "\<not> preempts r (hd ?q) (w_remaining w') (w_priority w')" "w_remaining w' = 0"
    | (C) "?na \<noteq> []" "\<not> preempts r (hd ?q) (w_remaining w') (w_priority w')" "w_remaining w' \<noteq> 0"
    | (D) "?na = []" "w_remaining w' = 0"
    | (E) "?na = []" "w_remaining w' \<noteq> 0" by blast
  then show ?thesis
  proof cases
    case A
    then have R: "pre_after r w' ps rq t' sch' = (filter (\<lambda>p. t' < w_arrival p) ps, tl ?q @ [w'], Some (hd ?q), t', sch')"
      by (simp add: pre_after_def Let_def)
    from assms[unfolded R, symmetric] have eq: "ps' = filter (\<lambda>p. t' < w_arrival p) ps" "rq' = tl ?q @ [w']" "act' = Some (hd ?q)"
      "t'' = t'" "sch'' = sch'" by simp_all
    have "mset rq' + mset (active_items act') = mset rq + mset ?na + {#w'#}"
      using hdtl[OF A(1)] by (simp add: eq active_items_def)
    with A eq show ?thesis by (intro conjI exI[of _ True]) simp_all
  next
    case B
    then have R: "pre_after r w' ps rq t' sch' = (filter (\<lambda>p. t' < w_arrival p) ps, ?q, None, t', sch')"
      by (simp add: pre_after_def Let_def)
    from assms[unfolded R, symmetric] have eq: "ps' = filter (\<lambda>p. t' < w_arrival p) ps" "rq' = ?q" "act' = None"
      "t'' = t'" "sch'' = sch'" by simp_all
    with B show ?thesis by (intro conjI exI[of _ False]) (simp_all add: active_items_def)
  next
    case C
    then have R: "pre_after r w' ps rq t' sch' = (filter (\<lambda>p. t' < w_arrival p) ps, ?q, Some w', t', sch')"
      by (simp add: pre_after_def Let_def)
    from assms[unfolded R, symmetric] have eq: "ps' = filter (\<lambda>p. t' < w_arrival p) ps" "rq' = ?q" "act' = Some w'"
      "t'' = t'" "sch'' = sch'" by simp_all
    with C show ?thesis by (intro conjI exI[of _ True]) (simp_all add: active_items_def)
  next
    case D
    then have R: "pre_after r w' ps rq t' sch' = (ps, rq, None, t', sch')"
      by (simp add: pre_after_def Let_def)
    from assms[unfolded R, symmetric] have eq: "ps' = ps" "rq' = rq" "act' = None"
      "t'' = t'" "sch'' = sch'" by simp_all
    with D lat show ?thesis by (intro conjI exI[of _ False]) (simp_all add: active_items_def)
  next
    case E
    then have R: "pre_after r w' ps rq t' sch' = (ps, rq, Some w', t', sch')"
      by (simp add: pre_after_def Let_def)
    from assms[unfolded R, symmetric] have eq: "ps' = ps" "rq' = rq" "act' = Some w'"
      "t'' = t'" "sch'' = sch'" by simp_all
    with E lat show ?thesis by (intro conjI exI[of _ True]) (simp_all add: active_items_def)
  qed
qed

text \<open>One iteration of the preemptive loop, summarised.\<close>

lemma pre_body_summary:
  assumes cond: "pre_cond (ps, rq, act, t, sch)"
    and body: "pre_body r (ps, rq, act, t, sch) = Inr (ps', rq', act', t', sch')"
  shows "(act = None \<and> rq = [] \<and> ps \<noteq> [] \<and> t < w_arrival (hd ps) \<and>
          ps' = ps \<and> rq' = [] \<and> act' = None \<and> t' = t + 1 \<and> sch' = sch) \<or>
         (\<exists>pid a rem ob pr rq2 keep.
            mset rq + mset (takeWhile (arrived_w t) ps) + mset (active_items act)
              = add_mset (pid, a, rem, ob, pr) (mset rq2) \<and>
            t' = t + min 1 rem \<and> sch' = sch @ [(pid, t, t + min 1 rem)] \<and>
            ps' = filter (\<lambda>p. t + min 1 rem < w_arrival p) (dropWhile (arrived_w t) ps) \<and>
            mset rq' + mset (active_items act') =
               mset rq2 + mset (filter (\<lambda>p. w_arrival p \<le> t + min 1 rem) (dropWhile (arrived_w t) ps)) +
               (if keep then {#(pid, a, rem - min 1 rem, ob, pr)#} else {#}) \<and>
            (\<not> keep \<longrightarrow> rem - min 1 rem = 0) \<and>
            (keep \<and> rem - min 1 rem = 0 \<longrightarrow>
               filter (\<lambda>p. w_arrival p \<le> t + min 1 rem) (dropWhile (arrived_w t) ps) \<noteq> []))"
proof -
  let ?tw = "takeWhile (arrived_w t) ps" and ?dw = "dropWhile (arrived_w t) ps"
  obtain act1 rq2 where sel: "pre_select r act (rq @ ?tw) = (act1, rq2)" by force
  note s = pre_select_summary[OF sel]
  show ?thesis
  proof (cases act1)
    case None
    with s(2) have e: "act = None" "rq = []" "?tw = []" by auto
    with cond have ne: "ps \<noteq> []" by (simp add: pre_cond_def)
    with e(3) have late: "t < w_arrival (hd ps)" by (cases ps) (auto split: if_splits)
    from e(3) have dw: "?dw = ps" by (metis append_Nil takeWhile_dropWhile_id)
    from s(1) None e have "rq2 = []" by (simp add: active_items_def)
    with body None sel dw have "ps' = ps \<and> rq' = [] \<and> act' = None \<and> t' = t + 1 \<and> sch' = sch"
      by (simp add: pre_body_unfold)
    with e ne late show ?thesis by blast
  next
    case (Some w)
    obtain pid a rem ob pr where w: "w = (pid, a, rem, ob, pr)" by (cases w)
    from body Some sel w have run: "pre_after r (pid, a, rem - min 1 rem, ob, pr) ?dw rq2
        (t + min 1 rem) (sch @ [(pid, t, t + min 1 rem)]) = (ps', rq', act', t', sch')"
      by (simp add: pre_body_unfold split: if_splits)
    from s(1) Some w have "mset rq + mset ?tw + mset (active_items act) = add_mset (pid, a, rem, ob, pr) (mset rq2)"
      by (simp add: active_items_def)
    with pre_after_summary[OF run] show ?thesis unfolding w_remaining.simps by blast
  qed
qed

lemma sum_list_as_mset: "sum_list (map f xs) = sum_mset (image_mset f (mset xs))"
  by (metis mset_map sum_mset_sum_list)

lemma total_for_as_mset:
  "total_for k w x xs = sum_mset (image_mset (\<lambda>a. if k a = x then w a else 0) (mset xs))"
  unfolding total_for_def by (induction xs) auto

lemma mset_take_drop_while: "mset (takeWhile P xs) + mset (dropWhile P xs) = mset xs"
  by (metis mset_append takeWhile_dropWhile_id)

lemma mset_filter_split:
  "mset (filter (\<lambda>p. t < f p) xs) + mset (filter (\<lambda>p. f p \<le> t) xs) = mset xs" for f :: "'a \<Rightarrow> int"
  by (induction xs) auto

lemma length_filter_split:
  "length (filter (\<lambda>p. t < f p) xs) + length (filter (\<lambda>p. f p \<le> t) xs) = length xs"
  for f :: "'a \<Rightarrow> int"
  by (induction xs) auto

text \<open>The multiset of work items before and after a running iteration.\<close>

lemma pre_body_items:
  assumes cond: "pre_cond (ps, rq, act, t, sch)"
    and body: "pre_body r (ps, rq, act, t, sch) = Inr (ps', rq', act', t', sch')"
    and run: "\<not> (act = None \<and> rq = [] \<and> ps \<noteq> [] \<and> t < w_arrival (hd ps))"
  obtains pid a rem ob pr rest keep where
    "mset (ps @ rq @ active_items act) = add_mset (pid, a, rem, ob, pr) rest"
    "mset (ps' @ rq' @ active_items act') =
       rest + (if keep then {#(pid, a, rem - min 1 rem, ob, pr)#} else {#})"
    "t' = t + min 1 rem" "sch' = sch @ [(pid, t, t + min 1 rem)]"
    "\<not> keep \<Longrightarrow> rem - min 1 rem = 0"
    "keep \<Longrightarrow> rem - min 1 rem = 0 \<Longrightarrow> length ps' < length ps"
    "(pid, a, rem, ob, pr) \<in> set rq \<union> set (active_items act) \<union> {v \<in> set ps. w_arrival v \<le> t}"
    "set ps' \<subseteq> set ps" "length ps' \<le> length ps"
    "set (rq' @ active_items act') \<subseteq>
       set rq \<union> set (active_items act) \<union> {v \<in> set ps. w_arrival v \<le> t \<or> w_arrival v \<le> t + min 1 rem} \<union>
       {(pid, a, rem - min 1 rem, ob, pr)}"
proof -
  let ?tw = "takeWhile (arrived_w t) ps" and ?dw = "dropWhile (arrived_w t) ps"
  from pre_body_summary[OF cond body] run
  obtain pid a rem ob pr rq2 keep where
    s1: "mset rq + mset ?tw + mset (active_items act) = add_mset (pid, a, rem, ob, pr) (mset rq2)" and
    s2: "t' = t + min 1 rem" "sch' = sch @ [(pid, t, t + min 1 rem)]" and
    s3: "ps' = filter (\<lambda>p. t + min 1 rem < w_arrival p) ?dw" and
    s4: "mset rq' + mset (active_items act') =
           mset rq2 + mset (filter (\<lambda>p. w_arrival p \<le> t + min 1 rem) ?dw) +
           (if keep then {#(pid, a, rem - min 1 rem, ob, pr)#} else {#})" and
    s5: "\<not> keep \<longrightarrow> rem - min 1 rem = 0" and
    s6: "keep \<and> rem - min 1 rem = 0 \<longrightarrow> filter (\<lambda>p. w_arrival p \<le> t + min 1 rem) ?dw \<noteq> []"
    by blast
  let ?w = "(pid, a, rem, ob, pr)" and ?w' = "(pid, a, rem - min 1 rem, ob, pr)"
  let ?K = "if keep then {#?w'#} else {#}"
  let ?na = "filter (\<lambda>p. w_arrival p \<le> t + min 1 rem) ?dw"
  have a1: "mset (ps @ rq @ active_items act) = add_mset ?w (mset ?dw + mset rq2)"
  proof -
    have "mset (ps @ rq @ active_items act) = mset ?dw + (mset rq + mset ?tw + mset (active_items act))"
      using mset_take_drop_while[of "arrived_w t" ps] by (simp add: ac_simps)
    then show ?thesis unfolding s1 by simp
  qed
  have a2: "mset (ps' @ rq' @ active_items act') = (mset ?dw + mset rq2) + ?K"
  proof -
    have "mset (ps' @ rq' @ active_items act') = mset ps' + (mset rq' + mset (active_items act'))"
      by simp
    also have "\<dots> = (mset ps' + mset ?na) + mset rq2 + ?K" unfolding s4 by (simp add: ac_simps)
    also have "mset ps' + mset ?na = mset ?dw" unfolding s3 by (rule mset_filter_split)
    finally show ?thesis .
  qed
  have a6: "length ps' < length ps" if "keep" "rem - min 1 rem = 0"
  proof -
    from that s6 have "?na \<noteq> []" by blast
    then have "0 < length ?na" by simp
    moreover have "length (filter (\<lambda>p. t + min 1 rem < w_arrival p) ?dw) + length ?na = length ?dw"
      by (rule length_filter_split)
    ultimately have "length ps' < length ?dw" unfolding s3 by linarith
    moreover have "length ?dw \<le> length ps" by (simp add: length_dropWhile_le)
    ultimately show ?thesis by simp
  qed
  have a7: "?w \<in> set rq \<union> set (active_items act) \<union> {v \<in> set ps. w_arrival v \<le> t}"
  proof -
    have "?w \<in># mset rq + mset ?tw + mset (active_items act)" unfolding s1 by simp
    then show ?thesis by (auto dest: set_takeWhileD)
  qed
  have a8: "set ps' \<subseteq> set ps" unfolding s3 by (auto dest: set_dropWhileD)
  have a8': "length ps' \<le> length ps" unfolding s3
    by (meson length_dropWhile_le length_filter_le order_trans)
  have a9: "set (rq' @ active_items act') \<subseteq>
       set rq \<union> set (active_items act) \<union> {v \<in> set ps. w_arrival v \<le> t \<or> w_arrival v \<le> t + min 1 rem} \<union> {?w'}"
  proof
    fix v assume "v \<in> set (rq' @ active_items act')"
    then have "v \<in># mset rq' + mset (active_items act')" by simp
    then have "v \<in># mset rq2 \<or> v \<in> set ?na \<or> v = ?w'"
      unfolding s4 by (auto split: if_splits)
    moreover have "v \<in> set rq \<union> set (active_items act) \<union> set ?tw" if "v \<in># mset rq2"
    proof -
      from that have "v \<in># mset rq + mset ?tw + mset (active_items act)" unfolding s1 by simp
      then show ?thesis by auto
    qed
    moreover have "w_arrival u \<le> t \<and> u \<in> set ps" if "u \<in> set ?tw" for u
      using that by (auto dest: set_takeWhileD)
    ultimately show "v \<in> set rq \<union> set (active_items act) \<union> {v \<in> set ps. w_arrival v \<le> t \<or> w_arrival v \<le> t + min 1 rem} \<union> {?w'}"
      by (auto dest: set_takeWhileD set_dropWhileD)
  qed
  from that[OF a1 a2 s2 _ a6 a7 a8 a8' a9] s5 show thesis by blast
qed

lemma pre_state_cases:
  obtains ps rq act t sch where "(s :: pre_state) = (ps, rq, act, t, sch)"
  by (cases s) auto

lemma pre_body_idle:
  assumes "pre_cond (ps, rq, act, t, sch)"
    and "act = None \<and> rq = [] \<and> ps \<noteq> [] \<and> t < w_arrival (hd ps)"
  shows "pre_body r (ps, rq, act, t, sch) = Inr (ps, [], None, t + 1, sch)"
proof -
  from assms(2) have tw: "takeWhile (arrived_w t) ps = []" by (cases ps) auto
  then have dw: "dropWhile (arrived_w t) ps = ps" by (metis append_Nil takeWhile_dropWhile_id)
  show ?thesis using assms(2) by (simp add: pre_body_unfold pre_select_def tw dw)
qed

lemma pre_body_raises:
  assumes "pre_body r (ps, rq, act, t, sch) = Inl e"
  shows "e = OverflowError \<and> float_overflow (of_int t)"
  using assms by (auto simp: pre_body_unfold split: prod.splits option.splits if_splits)

lemma pre_conserves_step:
  assumes "pre_conserves ps0 s" and cond: "pre_cond s" and body: "pre_body r s = Inr s'"
  shows "pre_conserves ps0 s'"
proof -
  obtain ps rq act t sch where s: "s = (ps, rq, act, t, sch)" by (rule pre_state_cases)
  obtain ps' rq' act' t' sch' where s': "s' = (ps', rq', act', t', sch')"
    by (rule pre_state_cases)
  from body have b: "pre_body r (ps, rq, act, t, sch) = Inr (ps', rq', act', t', sch')"
    unfolding s s' .
  from cond have c: "pre_cond (ps, rq, act, t, sch)" unfolding s .
  show ?thesis
  proof (cases "act = None \<and> rq = [] \<and> ps \<noteq> [] \<and> t < w_arrival (hd ps)")
    case True
    from b pre_body_idle[OF c True, of r]
    have e: "ps' = ps" "rq' = []" "act' = None" "t' = t + 1" "sch' = sch" by simp_all
    from assms(1) True show ?thesis unfolding s s' e
      by (simp add: pre_conserves_def active_items_def)
  next
    case False
    obtain pid a rem ob pr rest keep where
      i1: "mset (ps @ rq @ active_items act) = add_mset (pid, a, rem, ob, pr) rest" and
      i2: "mset (ps' @ rq' @ active_items act') =
             rest + (if keep then {#(pid, a, rem - min 1 rem, ob, pr)#} else {#})" and
      i3: "t' = t + min 1 rem" "sch' = sch @ [(pid, t, t + min 1 rem)]" and
      i4: "\<not> keep \<Longrightarrow> rem - min 1 rem = 0" and
      i5: "keep \<Longrightarrow> rem - min 1 rem = 0 \<Longrightarrow> length ps' < length ps" and
      i7: "(pid, a, rem, ob, pr) \<in> set rq \<union> set (active_items act) \<union> {v \<in> set ps. w_arrival v \<le> t}" and
      i6: "set ps' \<subseteq> set ps" and i8: "length ps' \<le> length ps" and
      i9: "set (rq' @ active_items act') \<subseteq>
       set rq \<union> set (active_items act) \<union> {v \<in> set ps. w_arrival v \<le> t \<or> w_arrival v \<le> t + min 1 rem} \<union>
       {(pid, a, rem - min 1 rem, ob, pr)}"
      by (rule pre_body_items[OF c b False]) blast
    have F: "exec_time x sch' + total_for w_pid w_remaining x (ps' @ rq' @ active_items act')
        = total_for p_pid p_burst x ps0" for x
    proof -
      let ?g = "\<lambda>v. if w_pid v = x then w_remaining v else 0"
      from assms(1) have inv: "exec_time x sch + total_for w_pid w_remaining x (ps @ rq @ active_items act)
        = total_for p_pid p_burst x ps0" unfolding s pre_conserves_def by simp
      have old: "total_for w_pid w_remaining x (ps @ rq @ active_items act)
          = (if pid = x then rem else 0) + sum_mset (image_mset ?g rest)"
        unfolding total_for_as_mset i1 by simp
      have new: "total_for w_pid w_remaining x (ps' @ rq' @ active_items act')
          = sum_mset (image_mset ?g rest) + (if pid = x then rem - min 1 rem else 0)"
        unfolding total_for_as_mset i2 using i4 by (cases keep) auto
      have ex: "exec_time x sch' = exec_time x sch + (if pid = x then min 1 rem else 0)"
        unfolding i3 by simp
      from inv old new ex show ?thesis by (simp split: if_splits)
    qed
    show ?thesis unfolding s' pre_conserves_def split_conv using F by blast
  qed
qed

lemma pre_timed_step:
  assumes "pre_timed ps0 s" and cond: "pre_cond s" and body: "pre_body r s = Inr s'"
  shows "pre_timed ps0 s'"
proof -
  obtain ps rq act t sch where s: "s = (ps, rq, act, t, sch)" by (rule pre_state_cases)
  obtain ps' rq' act' t' sch' where s': "s' = (ps', rq', act', t', sch')"
    by (rule pre_state_cases)
  from body have b: "pre_body r (ps, rq, act, t, sch) = Inr (ps', rq', act', t', sch')"
    unfolding s s' .
  from cond have c: "pre_cond (ps, rq, act, t, sch)" unfolding s .
  let ?P = "\<lambda>v. 0 \<le> w_remaining v \<and> (\<exists>p0 \<in> set ps0. p_pid p0 = w_pid v \<and> p_arrival p0 = w_arrival v)"
  from assms(1) have inv: "\<forall>v \<in> set (ps @ rq @ active_items act). ?P v"
    "\<forall>v \<in> set (rq @ active_items act). w_arrival v \<le> t" "in_order t sch" "after_arrival ps0 sch"
    unfolding s pre_timed_def by auto
  show ?thesis
  proof (cases "act = None \<and> rq = [] \<and> ps \<noteq> [] \<and> t < w_arrival (hd ps)")
    case True
    from b pre_body_idle[OF c True, of r]
    have e: "ps' = ps" "rq' = []" "act' = None" "t' = t + 1" "sch' = sch" by simp_all
    have "in_order (t + 1) sch" using in_order_mono[OF inv(3), of "t + 1"] by simp
    with inv True show ?thesis unfolding s' e
      by (simp add: pre_timed_def active_items_def)
  next
    case False
    obtain pid a rem ob pr rest keep where
      i1: "mset (ps @ rq @ active_items act) = add_mset (pid, a, rem, ob, pr) rest" and
      i2: "mset (ps' @ rq' @ active_items act') =
             rest + (if keep then {#(pid, a, rem - min 1 rem, ob, pr)#} else {#})" and
      i3: "t' = t + min 1 rem" "sch' = sch @ [(pid, t, t + min 1 rem)]" and
      i4: "\<not> keep \<Longrightarrow> rem - min 1 rem = 0" and
      i5: "keep \<Longrightarrow> rem - min 1 rem = 0 \<Longrightarrow> length ps' < length ps" and
      i7: "(pid, a, rem, ob, pr) \<in> set rq \<union> set (active_items act) \<union> {v \<in> set ps. w_arrival v \<le> t}" and
      i6: "set ps' \<subseteq> set ps" and i8: "length ps' \<le> length ps" and
      i9: "set (rq' @ active_items act') \<subseteq>
       set rq \<union> set (active_items act) \<union> {v \<in> set ps. w_arrival v \<le> t \<or> w_arrival v \<le> t + min 1 rem} \<union>
       {(pid, a, rem - min 1 rem, ob, pr)}"
      by (rule pre_body_items[OF c b False]) blast
    let ?w = "(pid, a, rem, ob, pr)" and ?w' = "(pid, a, rem - min 1 rem, ob, pr)"
    have w_in: "?w \<in> set (ps @ rq @ active_items act)"
      by (metis i1 set_mset_mset union_single_eq_member)
    with inv(1) have Pw: "?P ?w" by blast
    then have rem: "0 \<le> rem" and p0: "\<exists>p0 \<in> set ps0. p_pid p0 = pid \<and> p_arrival p0 = a" by auto
    from rem have sl: "0 \<le> min 1 rem" "0 \<le> rem - min 1 rem" by auto
    from i7 inv(2) have "w_arrival ?w \<le> t" by fastforce
    then have a: "a \<le> t" by simp
    have 1: "\<forall>v \<in> set (ps' @ rq' @ active_items act'). ?P v"
    proof
      fix v assume "v \<in> set (ps' @ rq' @ active_items act')"
      then have "v \<in># rest + (if keep then {#?w'#} else {#})" by (metis i2 set_mset_mset)
      then have "v \<in># rest \<or> v = ?w'" by (auto split: if_splits)
      moreover have "v \<in> set (ps @ rq @ active_items act)" if "v \<in># rest"
        by (metis that i1 set_mset_mset insert_iff set_mset_add_mset_insert)
      moreover have "?P ?w'" using p0 sl by simp
      ultimately show "?P v" using inv(1) by blast
    qed
    have 2: "\<forall>v \<in> set (rq' @ active_items act'). w_arrival v \<le> t'"
    proof
      fix v assume "v \<in> set (rq' @ active_items act')"
      with i9 have "v \<in> set rq \<union> set (active_items act) \<or> (v \<in> set ps \<and> (w_arrival v \<le> t \<or> w_arrival v \<le> t + min 1 rem)) \<or> v = ?w'"
        by blast
      moreover have "w_arrival v \<le> t" if "v \<in> set rq \<union> set (active_items act)"
        using inv(2) that by simp
      ultimately have "w_arrival v \<le> t \<or> w_arrival v \<le> t + min 1 rem" using a by auto
      with sl show "w_arrival v \<le> t'" unfolding i3 by linarith
    qed
    have 3: "in_order t' sch'" unfolding i3
      using in_order_snoc[OF inv(3), of t "t + min 1 rem"] sl by simp
    from p0 obtain q where q: "q \<in> set ps0" "p_pid q = pid" "p_arrival q = a" by blast
    have 4: "after_arrival ps0 sch'" unfolding i3
      using after_arrival_snoc[OF inv(4) q(1), of t] q a by simp
    show ?thesis unfolding s' pre_timed_def split_conv using 1 2 3 4 by blast
  qed
qed

lemma wf_pre_order: "wf pre_order"
  unfolding pre_order_def by (intro wf_inv_image wf_lex_prod wf_less_than)

lemma pre_order_step:
  assumes cond: "pre_cond s" and body: "pre_body r s = Inr s'"
  shows "(s', s) \<in> pre_order"
proof -
  obtain ps rq act t sch where s: "s = (ps, rq, act, t, sch)" by (rule pre_state_cases)
  obtain ps' rq' act' t' sch' where s': "s' = (ps', rq', act', t', sch')"
    by (rule pre_state_cases)
  from body have b: "pre_body r (ps, rq, act, t, sch) = Inr (ps', rq', act', t', sch')"
    unfolding s s' .
  from cond have c: "pre_cond (ps, rq, act, t, sch)" unfolding s .
  show ?thesis
  proof (cases "act = None \<and> rq = [] \<and> ps \<noteq> [] \<and> t < w_arrival (hd ps)")
    case True
    from b pre_body_idle[OF c True, of r]
    have e: "ps' = ps" "rq' = []" "act' = None" "t' = t + 1" "sch' = sch" by simp_all
    from True show ?thesis unfolding s s' e
      by (simp add: pre_order_def pre_work_def pre_wait_def active_items_def)
  next
    case False
    obtain pid a rem ob pr rest keep where
      i1: "mset (ps @ rq @ active_items act) = add_mset (pid, a, rem, ob, pr) rest" and
      i2: "mset (ps' @ rq' @ active_items act') =
             rest + (if keep then {#(pid, a, rem - min 1 rem, ob, pr)#} else {#})" and
      i3: "t' = t + min 1 rem" "sch' = sch @ [(pid, t, t + min 1 rem)]" and
      i4: "\<not> keep \<Longrightarrow> rem - min 1 rem = 0" and
      i5: "keep \<Longrightarrow> rem - min 1 rem = 0 \<Longrightarrow> length ps' < length ps" and
      i7: "(pid, a, rem, ob, pr) \<in> set rq \<union> set (active_items act) \<union> {v \<in> set ps. w_arrival v \<le> t}" and
      i6: "set ps' \<subseteq> set ps" and i8: "length ps' \<le> length ps" and
      i9: "set (rq' @ active_items act') \<subseteq>
       set rq \<union> set (active_items act) \<union> {v \<in> set ps. w_arrival v \<le> t \<or> w_arrival v \<le> t + min 1 rem} \<union>
       {(pid, a, rem - min 1 rem, ob, pr)}"
      by (rule pre_body_items[OF c b False]) blast
    let ?f = "\<lambda>v. nat (w_remaining v) + 1"
    have old: "sum_list (map ?f (ps @ rq @ active_items act)) = nat rem + 1 + sum_mset (image_mset ?f rest)"
      unfolding sum_list_as_mset i1 by simp
    have new: "sum_list (map ?f (ps' @ rq' @ active_items act'))
        = sum_mset (image_mset ?f rest) + (if keep then nat (rem - min 1 rem) + 1 else 0)"
      unfolding sum_list_as_mset i2 by simp
    have "pre_work (ps', rq', act', t', sch') < pre_work (ps, rq, act, t, sch)"
    proof (cases "rem \<le> 0")
      case True
      then have z: "rem - min 1 rem = 0" "nat rem = 0" by auto
      with i5 i8 old new show ?thesis unfolding pre_work_def split_conv by (cases keep) auto
    next
      case False
      then have "nat (rem - min 1 rem) < nat rem" by auto
      with i8 old new show ?thesis unfolding pre_work_def split_conv by (cases keep) auto
    qed
    then show ?thesis unfolding s s' by (simp add: pre_order_def)
  qed
qed

lemma total_for_to_work:
  "total_for w_pid w_remaining x (map to_work ps0) = total_for p_pid p_burst x ps0"
  by (induction ps0) auto

lemma float_overflow_int: "float_overflow (of_int t) \<longleftrightarrow> float_limit \<le> \<bar>t\<bar>"
proof -
  have "(of_int float_limit :: rat) \<le> \<bar>of_int t\<bar> \<longleftrightarrow> float_limit \<le> \<bar>t\<bar>"
    by (metis of_int_abs of_int_le_iff)
  then show ?thesis by (simp add: float_overflow_def)
qed

lemma work_left_as_mset: "work_left ws = sum_mset (image_mset w_remaining (mset ws))"
  unfolding work_left_def by (rule sum_list_as_mset)

lemma pre_bounded_step:
  assumes tm: "pre_timed ps0 s" and bd: "pre_bounded lo hi s"
    and cond: "pre_cond s" and body: "pre_body r s = Inr s'"
  shows "pre_bounded lo hi s'"
proof -
  obtain ps rq act t sch where s: "s = (ps, rq, act, t, sch)" by (rule pre_state_cases)
  obtain ps' rq' act' t' sch' where s': "s' = (ps', rq', act', t', sch')"
    by (rule pre_state_cases)
  from body have b: "pre_body r (ps, rq, act, t, sch) = Inr (ps', rq', act', t', sch')"
    unfolding s s' .
  from cond have c: "pre_cond (ps, rq, act, t, sch)" unfolding s .
  let ?W = "work_left (ps @ rq @ active_items act)"
  from bd have inv: "lo \<le> t" "t + ?W \<le> hi" "\<forall>v \<in> set ps. w_arrival v + ?W \<le> hi"
    unfolding s pre_bounded_def by auto
  from tm have nn: "\<forall>v \<in> set (ps @ rq @ active_items act). 0 \<le> w_remaining v"
    unfolding s pre_timed_def by auto
  show ?thesis
  proof (cases "act = None \<and> rq = [] \<and> ps \<noteq> [] \<and> t < w_arrival (hd ps)")
    case True
    from b pre_body_idle[OF c True, of r]
    have e: "ps' = ps" "rq' = []" "act' = None" "t' = t + 1" "sch' = sch" by simp_all
    from True have "hd ps \<in> set ps" and lt: "t < w_arrival (hd ps)" by simp_all
    with inv(3) have h: "w_arrival (hd ps) + ?W \<le> hi" by blast
    from inv(1) have 1: "lo \<le> t + 1" by simp
    from h lt have 2: "t + 1 + ?W \<le> hi" by linarith
    from 1 2 inv(3) True show ?thesis unfolding s' e pre_bounded_def split_conv by simp
  next
    case False
    obtain pid a rem ob pr rest keep where
      i1: "mset (ps @ rq @ active_items act) = add_mset (pid, a, rem, ob, pr) rest" and
      i2: "mset (ps' @ rq' @ active_items act') =
             rest + (if keep then {#(pid, a, rem - min 1 rem, ob, pr)#} else {#})" and
      i3: "t' = t + min 1 rem" "sch' = sch @ [(pid, t, t + min 1 rem)]" and
      i4: "\<not> keep \<Longrightarrow> rem - min 1 rem = 0" and
      i5: "keep \<Longrightarrow> rem - min 1 rem = 0 \<Longrightarrow> length ps' < length ps" and
      i7: "(pid, a, rem, ob, pr) \<in> set rq \<union> set (active_items act) \<union> {v \<in> set ps. w_arrival v \<le> t}" and
      i6: "set ps' \<subseteq> set ps" and i8: "length ps' \<le> length ps" and
      i9: "set (rq' @ active_items act') \<subseteq>
       set rq \<union> set (active_items act) \<union> {v \<in> set ps. w_arrival v \<le> t \<or> w_arrival v \<le> t + min 1 rem} \<union>
       {(pid, a, rem - min 1 rem, ob, pr)}"
      by (rule pre_body_items[OF c b False]) blast
    let ?W' = "work_left (ps' @ rq' @ active_items act')"
    have "(pid, a, rem, ob, pr) \<in> set (ps @ rq @ active_items act)"
      by (metis i1 set_mset_mset union_single_eq_member)
    with nn have rem: "0 \<le> rem" by force
    have old: "?W = rem + sum_mset (image_mset w_remaining rest)"
      unfolding work_left_as_mset i1 by simp
    have new: "?W' = sum_mset (image_mset w_remaining rest) + (rem - min 1 rem)"
      unfolding work_left_as_mset i2 using i4 by (cases keep) auto
    from old new have W: "?W' = ?W - min 1 rem" by simp
    from rem have sl: "0 \<le> min 1 rem" by simp
    have 1: "lo \<le> t'" unfolding i3 using inv(1) sl by simp
    have 2: "t' + ?W' \<le> hi" unfolding i3 W using inv(2) by simp
    have 3: "\<forall>v \<in> set ps'. w_arrival v + ?W' \<le> hi"
    proof
      fix v assume "v \<in> set ps'"
      with i6 inv(3) have "w_arrival v + ?W \<le> hi" by blast
      with sl show "w_arrival v + ?W' \<le> hi" unfolding W by simp
    qed
    show ?thesis unfolding s' pre_bounded_def split_conv using 1 2 3 by blast
  qed
qed



text \<open>
  With bursts from 0, a timeline that is returned conserves the bursts, is in order and
  respects the arrivals; and one is returned when the latest arrival plus the sum of the
  bursts is within the range of a float.
\<close>

lemma preemptive_facts:
  assumes ne: "ps0 \<noteq> []" and nonneg: "\<forall>p \<in> set ps0. 0 \<le> p_burst p"
  obtains (returns) sch t where "preemptive_scheduling r ps0 = Returns sch"
      "\<And>x. exec_time x sch = total_for p_pid p_burst x ps0"
      "in_order t sch" "after_arrival ps0 sch"
    | (raises) "preemptive_scheduling r ps0 = Raises OverflowError"
      "\<not> (\<forall>p \<in> set ps0. - float_limit < p_arrival p \<and>
              p_arrival p + sum_list (map p_burst ps0) < float_limit)"
proof -
  let ?ws = "map to_work ps0"
  let ?t0 = "min_list (map w_arrival ?ws)"
  let ?s0 = "(?ws, [], None, ?t0, []) :: pre_state"
  let ?hi = "float_limit - 1"
  let ?range = "\<forall>p \<in> set ps0. - float_limit < p_arrival p \<and>
              p_arrival p + sum_list (map p_burst ps0) < float_limit"
  let ?I = "\<lambda>s. pre_timed ps0 s \<and> pre_conserves ps0 s \<and> (?range \<longrightarrow> pre_bounded ?t0 ?hi s)"
  have item: "0 \<le> w_remaining (to_work p) \<and>
      (\<exists>p0 \<in> set ps0. p_pid p0 = w_pid (to_work p) \<and> p_arrival p0 = w_arrival (to_work p))"
    if "p \<in> set ps0" for p
  proof -
    obtain pid a b pr where p: "p = (pid, a, b, pr)" by (cases p)
    from nonneg that p have "0 \<le> b" by fastforce
    with that p show ?thesis by (intro conjI bexI[of _ p]) simp_all
  qed
  have t0: "pre_timed ps0 ?s0"
    unfolding pre_timed_def split_conv using item by (auto simp: active_items_def)
  have c0: "pre_conserves ps0 ?s0"
    by (simp add: pre_conserves_def active_items_def total_for_to_work)
  have arr: "w_arrival (to_work p) = p_arrival p" and rem: "w_remaining (to_work p) = p_burst p" for p
    by (cases p; simp)+
  have wl: "work_left ?ws = sum_list (map p_burst ps0)"
    unfolding work_left_def by (simp add: comp_def rem)
  from ne have "?t0 \<in> set (map w_arrival ?ws)"
    using Min_in[of "set (map w_arrival ?ws)"] min_list_Min[of "map w_arrival ?ws"] by simp
  then obtain p1 where p1: "p1 \<in> set ps0" "?t0 = p_arrival p1" by (auto simp: arr)
  have b0: "pre_bounded ?t0 ?hi ?s0" if ?range
    unfolding pre_bounded_def split_conv using that p1 by (auto simp: active_items_def wl arr)
  have lo: "- float_limit < ?t0" if ?range using that p1 by simp
  have step: "?I s' \<and> (s', s) \<in> pre_order" if "?I s" "pre_cond s" "pre_body r s = Inr s'" for s s'
    using that pre_timed_step pre_conserves_step pre_bounded_step pre_order_step by blast
  have safe: "pre_body r u \<noteq> Inl e" if "?I u" ?range for u e
  proof
    assume raised: "pre_body r u = Inl e"
    obtain ps rq act t sch where u: "u = (ps, rq, act, t, sch)" by (rule pre_state_cases)
    from pre_body_raises[OF raised[unfolded u]] have ov: "float_limit \<le> \<bar>t\<bar>"
      by (simp add: float_overflow_int)
    from that have tm: "\<forall>v \<in> set (ps @ rq @ active_items act). 0 \<le> w_remaining v"
      and bd: "?t0 \<le> t" "t + work_left (ps @ rq @ active_items act) \<le> ?hi"
      unfolding u pre_timed_def pre_bounded_def by auto
    from tm have "0 \<le> work_left (ps @ rq @ active_items act)"
      unfolding work_left_def by (intro sum_list_nonneg) auto
    with bd lo[OF that(2)] ov show False by linarith
  qed
  from loop_try_total[of pre_order ?I ?s0 pre_cond "pre_body r", OF wf_pre_order] t0 c0 b0 step
  consider (ret) st where "loop_try pre_cond (pre_body r) ?s0 = Some (Inr st)" "?I st" "\<not> pre_cond st"
    | (err) e u where "loop_try pre_cond (pre_body r) ?s0 = Some (Inl e)" "?I u" "pre_body r u = Inl e"
    by blast
  then show thesis
  proof cases
    case ret
    obtain ps rq act t sch where st: "st = (ps, rq, act, t, sch)" by (rule pre_state_cases)
    from ret(3)[unfolded st pre_cond_def split_conv] have e: "ps = []" "rq = []" "act = None"
      by blast+
    from ret(2) st e have c: "\<And>x. exec_time x sch = total_for p_pid p_burst x ps0"
      by (simp add: pre_conserves_def active_items_def)
    from ret(2) st have o: "in_order t sch" "after_arrival ps0 sch" by (simp_all add: pre_timed_def)
    have "preemptive_scheduling r ps0 = Returns sch"
      unfolding preemptive_scheduling_def Let_def using ne
      by (simp add: completing_def ret(1) st del: map_map)
    with c o returns show thesis by blast
  next
    case err
    obtain ps rq act t sch where u: "u = (ps, rq, act, t, sch)" by (rule pre_state_cases)
    from pre_body_raises[OF err(3)[unfolded u]] have e: "e = OverflowError" by simp
    have "preemptive_scheduling r ps0 = Raises OverflowError"
      unfolding preemptive_scheduling_def Let_def using ne
      by (simp add: completing_def err(1) e del: map_map)
    moreover from safe[OF err(2)] err(3) have "\<not> ?range" by blast
    ultimately show thesis using raises by blast
  qed
qed

section \<open>The reference case\<close>

text \<open>
  Claim C7. On the reference process set P1(arrival 0, burst 24, priority 1),
  P2(1, 3, 1), P3(2, 3, 1), FCFS returns exactly the segments P1[0,24), P2[24,27),
  P3[27,30), and the contiguous-run calculator reports the waiting times 0, 23 and 25,
  whose average is 16.
\<close>

theorem fcfs_reference_case:
  "fcfs_scheduling [(''P1'', 0, 24, 1), (''P2'', 1, 3, 1), (''P3'', 2, 3, 1)]
     = [(''P1'', 0, 24), (''P2'', 24, 27), (''P3'', 27, 30)] \<and>
   calculate_waiting_time
       (fcfs_scheduling [(''P1'', 0, 24, 1), (''P2'', 1, 3, 1), (''P3'', 2, 3, 1)])
       [(''P1'', 0, 24, 1), (''P2'', 1, 3, 1), (''P3'', 2, 3, 1)]
     = Inr ([(''P1'', 0), (''P2'', 23), (''P3'', 25)], PyFloat (Finite 16),
            [(''P1'', 24), (''P2'', 26), (''P3'', 28)], PyFloat (Finite 26),
            [(''P1'', 0), (''P2'', 23), (''P3'', 25)], PyFloat (Finite 16))"
  by (simp add: fcfs_scheduling_def calc_defs)

section \<open>Empty timelines and empty process sets\<close>

text \<open>
  Claim C3. The claim is that an empty timeline or an empty process set gives an all-zero
  report from each metrics computation. On the empty timeline with one process, both
  calculators raise \<^verbatim>\<open>KeyError\<close>: the waiting times of line 164 are guarded by
  \<^verbatim>\<open>if pid in first_starts\<close>, the turnaround and response times of lines 165-166 and
  190-191 are not. On the empty process set the aggregate computation of line 248 raises
  \<^verbatim>\<open>IndexError\<close> at \<^verbatim>\<open>schedule[-1]\<close>.
\<close>

theorem metrics_raise_on_empty_timeline:
  "calculate_waiting_time [] [(''P1'', 0, 1, 1)] = Inl KeyError \<and>
   calculate_preemptive_waiting_time [] [(''P1'', 0, 1, 1)] = Inl KeyError \<and>
   run_simulation [] ''FCFS'' 2 = Raises IndexError"
  by (simp add: calc_defs sim_defs)

section \<open>Properties of the timelines\<close>

lemma burst_of_process:
  assumes "valid_process_set ps" "p \<in> set ps"
  shows "total_for p_pid p_burst (p_pid p) ps = p_burst p"
  using assms total_for_distinct[of p_pid ps p p_burst] by (simp add: valid_process_set_def)

lemma valid_nonneg: "valid_process_set ps \<Longrightarrow> \<forall>p \<in> set ps. 0 \<le> p_burst p"
  by (fastforce simp: valid_process_set_def)

lemma valid_in_range:
  assumes "valid_process_set ps" "within_float_range ps"
  shows "\<forall>p \<in> set ps. - float_limit < p_arrival p \<and>
           p_arrival p + sum_list (map p_burst ps) < float_limit"
proof
  fix p assume p: "p \<in> set ps"
  with assms(1) have "0 \<le> p_arrival p" by (simp add: valid_process_set_def)
  moreover have "0 < float_limit" by (simp add: float_limit_def)
  ultimately have "- float_limit < p_arrival p" by linarith
  with assms(2) p show "- float_limit < p_arrival p \<and>
      p_arrival p + sum_list (map p_burst ps) < float_limit"
    by (simp add: within_float_range_def)
qed

lemma preemptive_valid:
  assumes v: "valid_process_set ps" and P: "\<And>sch t. (\<And>x. exec_time x sch = total_for p_pid p_burst x ps) \<Longrightarrow>
      in_order t sch \<Longrightarrow> after_arrival ps sch \<Longrightarrow> Q sch"
  shows "(returns_with (preemptive_scheduling r ps) Q \<or>
          preemptive_scheduling r ps = Raises OverflowError) \<and>
         (within_float_range ps \<longrightarrow> returns_with (preemptive_scheduling r ps) Q)"
proof -
  from v have ne: "ps \<noteq> []" by (simp add: valid_process_set_def)
  note nn = valid_nonneg[OF v]
  show ?thesis
  proof (rule preemptive_facts[OF ne nn, of r])
    fix sch t
    assume "preemptive_scheduling r ps = Returns sch"
      "\<And>x. exec_time x sch = total_for p_pid p_burst x ps" "in_order t sch" "after_arrival ps sch"
    with P show ?thesis by (simp add: returns_with_def)
  next
    assume r: "preemptive_scheduling r ps = Raises OverflowError"
      and n: "\<not> (\<forall>p \<in> set ps. - float_limit < p_arrival p \<and>
              p_arrival p + sum_list (map p_burst ps) < float_limit)"
    from n valid_in_range[OF v] have "\<not> within_float_range ps" by blast
    with r show ?thesis by simp
  qed
qed

text \<open>
  Claim C1, amended. For every valid process set, every quantum from 1 and every process
  of the set: FCFS, SJN, Round Robin and Priority return a timeline in which the
  durations of the segments carrying that process's id add up to exactly its burst; so
  do the two preemptive schedulers whenever the process set is within the range of a
  float (latest arrival plus total burst below \<open>2^1024 - 2^970\<close>). Beyond that range they
  return such a timeline or raise \<^verbatim>\<open>OverflowError\<close>.
\<close>

theorem burst_conservation:
  assumes "valid_process_set processes" and "1 \<le> quantum" and "p \<in> set processes"
  shows "exec_time (p_pid p) (fcfs_scheduling processes) = p_burst p \<and>
         returns_with (sjn_scheduling processes) (\<lambda>timeline. exec_time (p_pid p) timeline = p_burst p) \<and>
         returns_with (round_robin_scheduling processes quantum)
           (\<lambda>timeline. exec_time (p_pid p) timeline = p_burst p) \<and>
         exec_time (p_pid p) (priority_scheduling processes) = p_burst p \<and>
         (returns_with (sjn_preemptive_scheduling processes)
            (\<lambda>timeline. exec_time (p_pid p) timeline = p_burst p) \<or>
          sjn_preemptive_scheduling processes = Raises OverflowError) \<and>
         (returns_with (priority_preemptive_scheduling processes)
            (\<lambda>timeline. exec_time (p_pid p) timeline = p_burst p) \<or>
          priority_preemptive_scheduling processes = Raises OverflowError) \<and>
         (within_float_range processes \<longrightarrow>
            returns_with (sjn_preemptive_scheduling processes)
              (\<lambda>timeline. exec_time (p_pid p) timeline = p_burst p) \<and>
            returns_with (priority_preemptive_scheduling processes)
              (\<lambda>timeline. exec_time (p_pid p) timeline = p_burst p))"
proof -
  note b = burst_of_process[OF assms(1,3)]
  have 1: "exec_time (p_pid p) (fcfs_scheduling processes) = p_burst p"
    unfolding fcfs_scheduling_def by (simp add: sorted_run_facts(1) b)
  have 5: "exec_time (p_pid p) (priority_scheduling processes) = p_burst p"
    unfolding priority_scheduling_def by (simp add: sorted_run_facts(1) b)
  have 2: "returns_with (sjn_scheduling processes) (\<lambda>timeline. exec_time (p_pid p) timeline = p_burst p)"
    by (rule sjn_scheduling_facts[of processes]) (simp add: returns_with_def b)
  have 4: "returns_with (round_robin_scheduling processes quantum)
           (\<lambda>timeline. exec_time (p_pid p) timeline = p_burst p)"
    by (rule round_robin_facts[OF assms(2), of processes]) (simp add: returns_with_def b)
  have 3: "(returns_with (preemptive_scheduling r processes)
              (\<lambda>timeline. exec_time (p_pid p) timeline = p_burst p) \<or>
            preemptive_scheduling r processes = Raises OverflowError) \<and>
           (within_float_range processes \<longrightarrow>
              returns_with (preemptive_scheduling r processes)
                (\<lambda>timeline. exec_time (p_pid p) timeline = p_burst p))" for r
    by (rule preemptive_valid[OF assms(1)]) (simp add: b)
  from 1 2 3[of ByRemaining] 3[of ByPriority] 4 5 show ?thesis
    unfolding sjn_preemptive_scheduling_def priority_preemptive_scheduling_def by blast
qed

theorem burst_conservation_witness:
  "valid_process_set [(''P1'', 0, 3, 2), (''P2'', 1, 2, 1)] \<and> (1::int) \<le> 2 \<and>
   (''P1'', 0, 3, 2) \<in> set [(''P1'', 0, 3, 2), (''P2'', 1, 2, 1)] \<and>
   within_float_range [(''P1'', 0, 3, 2), (''P2'', 1, 2, 1)] \<and>
   exec_time ''P1'' (fcfs_scheduling [(''P1'', 0, 3, 2), (''P2'', 1, 2, 1)]) = 3 \<and>
   returns_with (sjn_scheduling [(''P1'', 0, 3, 2), (''P2'', 1, 2, 1)])
     (\<lambda>timeline. exec_time ''P1'' timeline = 3) \<and>
   returns_with (sjn_preemptive_scheduling [(''P1'', 0, 3, 2), (''P2'', 1, 2, 1)])
     (\<lambda>timeline. exec_time ''P1'' timeline = 3) \<and>
   returns_with (round_robin_scheduling [(''P1'', 0, 3, 2), (''P2'', 1, 2, 1)] 2)
     (\<lambda>timeline. exec_time ''P1'' timeline = 3) \<and>
   exec_time ''P1'' (priority_scheduling [(''P1'', 0, 3, 2), (''P2'', 1, 2, 1)]) = 3 \<and>
   returns_with (priority_preemptive_scheduling [(''P1'', 0, 3, 2), (''P2'', 1, 2, 1)])
     (\<lambda>timeline. exec_time ''P1'' timeline = 3)"
proof -
  have v: "valid_process_set [(''P1'', 0, 3, 2), (''P2'', 1, 2, 1)]"
    by (simp add: valid_process_set_def)
  have q: "(1::int) \<le> 2" by simp
  have m: "(''P1'', 0, 3, 2) \<in> set [(''P1'', 0, 3, 2), (''P2'', 1, 2, 1)]" by simp
  have f: "within_float_range [(''P1'', 0, 3, 2), (''P2'', 1, 2, 1)]"
    by (simp add: within_float_range_def float_limit_def)
  from burst_conservation[OF v q m] v f show ?thesis by simp
qed

text \<open>
  Claim C2, amended. For every valid process set and every quantum from 1: FCFS, SJN,
  Round Robin and Priority return a timeline in which no two segments overlap and every
  segment starts no earlier than the arrival of the process it belongs to; so do the two
  preemptive schedulers whenever the process set is within the range of a float. Beyond
  that range they return such a timeline or raise \<^verbatim>\<open>OverflowError\<close>.
\<close>

theorem timeline_well_placed:
  assumes "valid_process_set processes" and "1 \<le> quantum"
  shows "(no_overlap (fcfs_scheduling processes) \<and> after_arrival processes (fcfs_scheduling processes)) \<and>
         returns_with (sjn_scheduling processes)
           (\<lambda>timeline. no_overlap timeline \<and> after_arrival processes timeline) \<and>
         returns_with (round_robin_scheduling processes quantum)
           (\<lambda>timeline. no_overlap timeline \<and> after_arrival processes timeline) \<and>
         (no_overlap (priority_scheduling processes) \<and>
          after_arrival processes (priority_scheduling processes)) \<and>
         (returns_with (sjn_preemptive_scheduling processes)
            (\<lambda>timeline. no_overlap timeline \<and> after_arrival processes timeline) \<or>
          sjn_preemptive_scheduling processes = Raises OverflowError) \<and>
         (returns_with (priority_preemptive_scheduling processes)
            (\<lambda>timeline. no_overlap timeline \<and> after_arrival processes timeline) \<or>
          priority_preemptive_scheduling processes = Raises OverflowError) \<and>
         (within_float_range processes \<longrightarrow>
            returns_with (sjn_preemptive_scheduling processes)
              (\<lambda>timeline. no_overlap timeline \<and> after_arrival processes timeline) \<and>
            returns_with (priority_preemptive_scheduling processes)
              (\<lambda>timeline. no_overlap timeline \<and> after_arrival processes timeline))"
proof -
  note nn = valid_nonneg[OF assms(1)]
  have 1: "no_overlap (fcfs_scheduling processes) \<and> after_arrival processes (fcfs_scheduling processes)"
    unfolding fcfs_scheduling_def
    using sorted_run_facts(2)[OF nn, of p_arrival] sorted_run_facts(3)[of processes p_arrival]
    by (auto dest: in_order_no_overlap)
  have 5: "no_overlap (priority_scheduling processes) \<and>
          after_arrival processes (priority_scheduling processes)"
    unfolding priority_scheduling_def
    using sorted_run_facts(2)[OF nn, of "\<lambda>p. (p_priority p, p_arrival p)"]
      sorted_run_facts(3)[of processes "\<lambda>p. (p_priority p, p_arrival p)"]
    by (auto dest: in_order_no_overlap)
  have 2: "returns_with (sjn_scheduling processes)
           (\<lambda>timeline. no_overlap timeline \<and> after_arrival processes timeline)"
    by (rule sjn_scheduling_facts[of processes])
       (use nn in \<open>auto simp: returns_with_def dest: in_order_no_overlap\<close>)
  have 4: "returns_with (round_robin_scheduling processes quantum)
           (\<lambda>timeline. no_overlap timeline \<and> after_arrival processes timeline)"
    by (rule round_robin_facts[OF assms(2), of processes])
       (use nn in \<open>auto simp: returns_with_def dest: in_order_no_overlap\<close>)
  have 3: "(returns_with (preemptive_scheduling r processes)
              (\<lambda>timeline. no_overlap timeline \<and> after_arrival processes timeline) \<or>
            preemptive_scheduling r processes = Raises OverflowError) \<and>
           (within_float_range processes \<longrightarrow>
              returns_with (preemptive_scheduling r processes)
                (\<lambda>timeline. no_overlap timeline \<and> after_arrival processes timeline))" for r
    by (rule preemptive_valid[OF assms(1)]) (auto dest: in_order_no_overlap)
  from 1 2 3[of ByRemaining] 3[of ByPriority] 4 5 show ?thesis
    unfolding sjn_preemptive_scheduling_def priority_preemptive_scheduling_def by blast
qed

theorem timeline_well_placed_witness:
  "valid_process_set [(''P1'', 0, 3, 2), (''P2'', 1, 2, 1)] \<and> (1::int) \<le> 2 \<and>
   within_float_range [(''P1'', 0, 3, 2), (''P2'', 1, 2, 1)] \<and>
   (no_overlap (fcfs_scheduling [(''P1'', 0, 3, 2), (''P2'', 1, 2, 1)]) \<and>
    after_arrival [(''P1'', 0, 3, 2), (''P2'', 1, 2, 1)]
      (fcfs_scheduling [(''P1'', 0, 3, 2), (''P2'', 1, 2, 1)])) \<and>
   returns_with (round_robin_scheduling [(''P1'', 0, 3, 2), (''P2'', 1, 2, 1)] 2)
     (\<lambda>timeline. no_overlap timeline \<and>
        after_arrival [(''P1'', 0, 3, 2), (''P2'', 1, 2, 1)] timeline) \<and>
   returns_with (priority_preemptive_scheduling [(''P1'', 0, 3, 2), (''P2'', 1, 2, 1)])
     (\<lambda>timeline. no_overlap timeline \<and>
        after_arrival [(''P1'', 0, 3, 2), (''P2'', 1, 2, 1)] timeline)"
proof -
  have v: "valid_process_set [(''P1'', 0, 3, 2), (''P2'', 1, 2, 1)]"
    by (simp add: valid_process_set_def)
  have q: "(1::int) \<le> 2" by simp
  have f: "within_float_range [(''P1'', 0, 3, 2), (''P2'', 1, 2, 1)]"
    by (simp add: within_float_range_def float_limit_def)
  from timeline_well_placed[OF v q] v f show ?thesis by simp
qed

text \<open>
  Claim C8. For every valid process set and every quantum from 1, every segment of the
  Round Robin timeline lasts at least 1 and at most the quantum, and a segment that is
  followed by a later segment of the same process lasts exactly the quantum: only the
  last segment of a process may be shorter.
\<close>

theorem round_robin_slices:
  assumes "valid_process_set processes" and "1 \<le> quantum"
  shows "returns_with (round_robin_scheduling processes quantum)
           (\<lambda>timeline. (\<forall>s \<in> set timeline. 1 \<le> duration s \<and> duration s \<le> quantum) \<and>
                       full_until_last quantum timeline)"
proof -
  from assms(1) have d: "distinct (map p_pid processes)" and b: "\<forall>p \<in> set processes. 1 \<le> p_burst p"
    by (auto simp: valid_process_set_def)
  show ?thesis
    by (rule round_robin_facts[OF assms(2), of processes])
       (use d b in \<open>simp add: returns_with_def\<close>)
qed

theorem round_robin_slices_witness:
  "valid_process_set [(''P1'', 0, 3, 2), (''P2'', 1, 2, 1)] \<and> (1::int) \<le> 2 \<and>
   returns_with (round_robin_scheduling [(''P1'', 0, 3, 2), (''P2'', 1, 2, 1)] 2)
     (\<lambda>timeline. (\<forall>s \<in> set timeline. 1 \<le> duration s \<and> duration s \<le> 2) \<and>
                 full_until_last 2 timeline)"
proof -
  have v: "valid_process_set [(''P1'', 0, 3, 2), (''P2'', 1, 2, 1)]"
    by (simp add: valid_process_set_def)
  have q: "(1::int) \<le> 2" by simp
  from round_robin_slices[OF v q] v show ?thesis by simp
qed

text \<open>
  Claim C9. For every valid process set and every quantum from 1, each of the six
  scheduling functions terminates. The \<^verbatim>\<open>while\<close> loops of SJN and Round Robin end and
  return a timeline; the two \<^verbatim>\<open>for\<close> loops (FCFS, Priority) make one iteration per
  process; the loop of the two preemptive schedulers ends, by returning a timeline or by
  the \<^verbatim>\<open>OverflowError\<close> of line 60, and it returns a timeline whenever the process set is
  within the range of a float. The measures are \<open>sjn_measure\<close>, \<open>rr_measure\<close> and, for the
  preemptive loop, \<open>pre_work\<close> followed by \<open>pre_wait\<close>: an iteration that runs a process
  lowers the work left, an idle iteration leaves it and brings the clock nearer to the
  head of the pending list.
\<close>

theorem schedulers_terminate:
  assumes "valid_process_set processes" and "1 \<le> quantum"
  shows "length (fcfs_scheduling processes) = length processes \<and>
         (\<exists>timeline. sjn_scheduling processes = Returns timeline) \<and>
         (\<exists>timeline. round_robin_scheduling processes quantum = Returns timeline) \<and>
         length (priority_scheduling processes) = length processes \<and>
         ((\<exists>timeline. sjn_preemptive_scheduling processes = Returns timeline) \<or>
          sjn_preemptive_scheduling processes = Raises OverflowError) \<and>
         ((\<exists>timeline. priority_preemptive_scheduling processes = Returns timeline) \<or>
          priority_preemptive_scheduling processes = Raises OverflowError) \<and>
         (within_float_range processes \<longrightarrow>
            (\<exists>timeline. sjn_preemptive_scheduling processes = Returns timeline) \<and>
            (\<exists>timeline. priority_preemptive_scheduling processes = Returns timeline))"
proof -
  have 1: "length (fcfs_scheduling processes) = length processes"
    unfolding fcfs_scheduling_def by (rule sorted_run_facts(4))
  have 5: "length (priority_scheduling processes) = length processes"
    unfolding priority_scheduling_def by (rule sorted_run_facts(4))
  have 2: "\<exists>timeline. sjn_scheduling processes = Returns timeline"
    by (rule sjn_scheduling_facts[of processes]) blast
  have 4: "\<exists>timeline. round_robin_scheduling processes quantum = Returns timeline"
    by (rule round_robin_facts[OF assms(2), of processes]) blast
  have r: "returns_with x (\<lambda>timeline. True) \<longleftrightarrow> (\<exists>timeline. x = Returns timeline)"
    for x :: "segment list outcome"
    by (cases x) (simp_all add: returns_with_def)
  have 3: "((\<exists>timeline. preemptive_scheduling r processes = Returns timeline) \<or>
            preemptive_scheduling r processes = Raises OverflowError) \<and>
           (within_float_range processes \<longrightarrow>
              (\<exists>timeline. preemptive_scheduling r processes = Returns timeline))" for r
    using preemptive_valid[OF assms(1), of "\<lambda>timeline. True" r] unfolding r by simp
  from 1 2 3[of ByRemaining] 3[of ByPriority] 4 5 show ?thesis
    unfolding sjn_preemptive_scheduling_def priority_preemptive_scheduling_def by blast
qed

theorem schedulers_terminate_witness:
  "valid_process_set [(''P1'', 0, 3, 2), (''P2'', 1, 2, 1)] \<and> (1::int) \<le> 2 \<and>
   within_float_range [(''P1'', 0, 3, 2), (''P2'', 1, 2, 1)] \<and>
   (\<exists>timeline. sjn_scheduling [(''P1'', 0, 3, 2), (''P2'', 1, 2, 1)] = Returns timeline) \<and>
   (\<exists>timeline. sjn_preemptive_scheduling [(''P1'', 0, 3, 2), (''P2'', 1, 2, 1)] = Returns timeline) \<and>
   (\<exists>timeline. round_robin_scheduling [(''P1'', 0, 3, 2), (''P2'', 1, 2, 1)] 2 = Returns timeline)"
proof -
  have v: "valid_process_set [(''P1'', 0, 3, 2), (''P2'', 1, 2, 1)]"
    by (simp add: valid_process_set_def)
  have q: "(1::int) \<le> 2" by simp
  have f: "within_float_range [(''P1'', 0, 3, 2), (''P2'', 1, 2, 1)]"
    by (simp add: within_float_range_def float_limit_def)
  from schedulers_terminate[OF v q] v f show ?thesis by simp
qed

text \<open>
  Claim C6. The claim is that, in any input order, non-preemptive SJN dispatches at each
  decision point the shortest process among those that have arrived and not yet run, and
  otherwise advances the clock to the earliest pending arrival. The admission loop of
  lines 30-31 inspects only the head of the process list, which \<^verbatim>\<open>sjn_scheduling\<close> copies
  without sorting it by arrival (\<^verbatim>\<open>fcfs_scheduling\<close> sorts). On the input A(0,2), B(10,1),
  C(1,5), at time 2 the process C has arrived (at 1) and has not run, yet the clock jumps
  to 10, the arrival of the head B, and C runs only from 11.
\<close>

theorem sjn_leaves_arrived_process_waiting:
  "sjn_scheduling [(''A'', 0, 2, 1), (''B'', 10, 1, 1), (''C'', 1, 5, 1)]
     = Returns [(''A'', 0, 2), (''B'', 10, 11), (''C'', 11, 16)]"
  by (simp add: run_defs)

lemma sjn_unsorted_input_is_valid:
  "valid_process_set [(''A'', 0, 2, 1), (''B'', 10, 1, 1), (''C'', 1, 5, 1)]"
  by (simp add: valid_process_set_def)

section \<open>A single process\<close>

lemma unit_segments_step:
  "1 \<le> n \<Longrightarrow> unit_segments pid s n = (pid, s, s + 1) # unit_segments pid (s + 1) (n - 1)"
proof -
  assume "1 \<le> n"
  then obtain k where k: "nat n = Suc k" "nat (n - 1) = k" by (cases "nat n") auto
  show ?thesis unfolding unit_segments_def k by (simp add: map_upt_Suc del: upt_Suc)
qed

lemma while_loop_step: "b s \<Longrightarrow> while_loop b c s = while_loop b c (c s)"
  by (subst while_loop.simps) simp

lemma while_loop_stop: "\<not> b s \<Longrightarrow> while_loop b c s = Some s"
  by (subst while_loop.simps) simp

lemma pre_single_body:
  assumes "1 \<le> rem"
  shows "pre_body r ([], [], Some (pid, a, rem, ob, pr), t, sch) =
     (if float_limit \<le> \<bar>t\<bar> then Inl OverflowError
      else Inr ([], [], (if rem - 1 = 0 then None else Some (pid, a, rem - 1, ob, pr)),
                t + 1, sch @ [(pid, t, t + 1)]))"
  using assms
  by (simp add: pre_body_def next_arrival_of_def time_slice_of_eq float_overflow_int Let_def)

lemma pre_single_run:
  "1 \<le> rem \<Longrightarrow> 0 \<le> t \<Longrightarrow> t + rem \<le> float_limit \<Longrightarrow>
   loop_try pre_cond (pre_body r) ([], [], Some (pid, a, rem, ob, pr), t, sch)
   = Some (Inr ([], [], None, t + rem, sch @ unit_segments pid t rem))"
proof (induction "nat rem" arbitrary: rem t sch)
  case 0
  then show ?case by simp
next
  case (Suc k)
  from Suc.prems have small: "\<not> float_limit \<le> \<bar>t\<bar>" by simp
  have c: "pre_cond ([], [], Some (pid, a, rem, ob, pr), t, sch)" by (simp add: pre_cond_def)
  have step: "loop_try pre_cond (pre_body r) ([], [], Some (pid, a, rem, ob, pr), t, sch)
      = loop_try pre_cond (pre_body r)
          ([], [], (if rem - 1 = 0 then None else Some (pid, a, rem - 1, ob, pr)),
           t + 1, sch @ [(pid, t, t + 1)])"
    using c small
    by (simp add: loop_try_unfold[of pre_cond "pre_body r" "([], [], Some (pid, a, rem, ob, pr), t, sch)"]
        pre_single_body[OF Suc.prems(1)])
  show ?case
  proof (cases "rem = 1")
    case True
    have u: "unit_segments pid t 1 = [(pid, t, t + 1)]" by (simp add: unit_segments_def)
    have "\<not> pre_cond ([], [], None, t + 1, sch @ [(pid, t, t + 1)])" by (simp add: pre_cond_def)
    then have "loop_try pre_cond (pre_body r) ([], [], None, t + 1, sch @ [(pid, t, t + 1)])
        = Some (Inr ([], [], None, t + 1, sch @ [(pid, t, t + 1)]))"
      by (simp add: loop_try_unfold[of pre_cond "pre_body r" "([], [], None, t + 1, sch @ [(pid, t, t + 1)])"])
    with step True u show ?thesis by simp
  next
    case False
    with Suc.prems have r: "1 \<le> rem - 1" "rem - 1 \<noteq> 0" "0 \<le> t + 1" "t + 1 + (rem - 1) \<le> float_limit"
      by auto
    from Suc.hyps(2) have k: "k = nat (rem - 1)" by simp
    from Suc.hyps(1)[OF k r(1,3,4), of "sch @ [(pid, t, t + 1)]"] step r
    show ?thesis by (simp add: unit_segments_step[OF Suc.prems(1)])
  qed
qed

lemma pre_single_overflow:
  "1 \<le> rem \<Longrightarrow> 0 \<le> t \<Longrightarrow> float_limit < t + rem \<Longrightarrow>
   loop_try pre_cond (pre_body r) ([], [], Some (pid, a, rem, ob, pr), t, sch)
   = Some (Inl OverflowError)"
proof (induction "nat rem" arbitrary: rem t sch)
  case 0
  then show ?case by simp
next
  case (Suc k)
  have c: "pre_cond ([], [], Some (pid, a, rem, ob, pr), t, sch)" by (simp add: pre_cond_def)
  show ?case
  proof (cases "float_limit \<le> \<bar>t\<bar>")
    case True
    with c show ?thesis
      by (simp add: loop_try_unfold[of pre_cond "pre_body r" "([], [], Some (pid, a, rem, ob, pr), t, sch)"]
          pre_single_body[OF Suc.prems(1)])
  next
    case False
    with Suc.prems have r: "1 \<le> rem - 1" "rem - 1 \<noteq> 0" "0 \<le> t + 1" "float_limit < t + 1 + (rem - 1)"
      by auto
    from Suc.hyps(2) have k: "k = nat (rem - 1)" by simp
    have "loop_try pre_cond (pre_body r) ([], [], Some (pid, a, rem, ob, pr), t, sch)
      = loop_try pre_cond (pre_body r)
          ([], [], Some (pid, a, rem - 1, ob, pr), t + 1, sch @ [(pid, t, t + 1)])"
      using c False r(2)
      by (simp add: loop_try_unfold[of pre_cond "pre_body r" "([], [], Some (pid, a, rem, ob, pr), t, sch)"]
          pre_single_body[OF Suc.prems(1)])
    with Suc.hyps(1)[OF k r(1,3,4), of "sch @ [(pid, t, t + 1)]"] show ?thesis by simp
  qed
qed

lemma preemptive_single:
  assumes "1 \<le> b" and "0 \<le> a"
  shows "preemptive_scheduling r [(pid, a, b, pr)] =
     (if a + b \<le> float_limit then Returns (unit_segments pid a b) else Raises OverflowError)"
proof -
  let ?w = "(pid, a, b, b, pr)"
  have b0: "pre_body r ([?w], [], None, a, []) = pre_body r ([], [], Some ?w, a, [])"
    by (simp add: pre_body_def Let_def)
  have "loop_try pre_cond (pre_body r) ([?w], [], None, a, [])
      = loop_try pre_cond (pre_body r) ([], [], Some ?w, a, [])"
    using loop_try_unfold[of pre_cond "pre_body r" "([?w], [], None, a, [])"]
      loop_try_unfold[of pre_cond "pre_body r" "([], [], Some ?w, a, [])"]
    by (simp add: pre_cond_def b0)
  with pre_single_run[OF assms, of r pid a b pr "[]"] pre_single_overflow[OF assms, of r pid a b pr "[]"]
  show ?thesis by (simp add: preemptive_scheduling_def completing_def)
qed

lemma ceil_div_step: "1 \<le> q \<Longrightarrow> (b + q - 1) div q = (b - 1) div q + 1" for b q :: int
proof -
  assume "1 \<le> q"
  then have "q \<noteq> 0" by simp
  have "(b + q - 1) div q = ((b - 1) + q) div q" by (simp add: algebra_simps)
  also have "\<dots> = (b - 1) div q + 1" by (rule div_add_self2[OF \<open>q \<noteq> 0\<close>])
  finally show ?thesis .
qed

lemma quantum_segments_last:
  assumes "1 \<le> q" "1 \<le> b" "b \<le> q"
  shows "quantum_segments pid s b q = [(pid, s, s + b)]"
proof -
  from assms have "(b - 1) div q = 0" by (simp add: div_pos_pos_trivial)
  with ceil_div_step[OF assms(1), of b] have "nat ((b + q - 1) div q) = Suc 0" by simp
  then show ?thesis using assms unfolding quantum_segments_def by simp
qed

lemma quantum_segments_step:
  assumes "1 \<le> q" "q < b"
  shows "quantum_segments pid s b q = (pid, s, s + q) # quantum_segments pid (s + q) (b - q) q"
proof -
  from assms have q0: "q \<noteq> 0" by simp
  have "(b - 1) div q = ((b - q - 1) + q) div q" by (simp add: algebra_simps)
  also have "\<dots> = (b - q - 1) div q + 1" by (rule div_add_self2[OF q0])
  finally have "(b - 1) div q = (b - q - 1) div q + 1" .
  moreover have "0 \<le> (b - q - 1) div q" using assms by (simp add: pos_imp_zdiv_nonneg_iff)
  ultimately have n: "nat ((b + q - 1) div q) = Suc (nat ((b - q + q - 1) div q))"
    using ceil_div_step[OF assms(1), of b] ceil_div_step[OF assms(1), of "b - q"] by simp
  have m: "min b q = q" using assms by simp
  have e: "s + q + min (b - q) ((int i + 1) * q) = s + min b ((int (Suc i) + 1) * q)" for i
    by (simp add: min_def algebra_simps)
  have e2: "s + q + int i * q = s + int (Suc i) * q" for i by (simp add: algebra_simps)
  show ?thesis
    unfolding quantum_segments_def n
    by (simp only: map_upt_Suc list.simps e e2) (simp add: m)
qed

lemma rr_single_run:
  assumes "1 \<le> q"
  shows "1 \<le> b \<Longrightarrow>
   while_loop rr_cond (rr_body q) ([(pid, a, b, pr)], t, sch)
   = Some ([], max t a + b, sch @ quantum_segments pid (max t a) b q)"
proof (induction "nat b" arbitrary: b t sch rule: less_induct)
  case less
  have c: "rr_cond ([(pid, a, b, pr)], t, sch)" by (simp add: rr_cond_def)
  note step = while_loop_step[of rr_cond, OF c, of "rr_body q"]
  show ?case
  proof (cases "b \<le> q")
    case True
    then have body: "rr_body q ([(pid, a, b, pr)], t, sch)
        = ([], max t a + b, sch @ [(pid, max t a, max t a + b)])"
      by (simp add: rr_body_eq min_def)
    have "\<not> rr_cond ([], max t a + b, sch @ [(pid, max t a, max t a + b)])"
      by (simp add: rr_cond_def)
    from while_loop_stop[of rr_cond, OF this, of "rr_body q"] step
    show ?thesis
      by (simp add: body quantum_segments_last[OF assms less.prems True])
  next
    case False
    then have gt: "q < b" by simp
    then have body: "rr_body q ([(pid, a, b, pr)], t, sch)
        = ([(pid, a, b - q, pr)], max t a + q, sch @ [(pid, max t a, max t a + q)])"
      by (simp add: rr_body_eq min_def)
    have sm: "nat (b - q) < nat b" "1 \<le> b - q" using gt assms by auto
    have mx: "max (max t a + q) a = max t a + q" using assms by simp
    from less.hyps[OF sm, of "max t a + q" "sch @ [(pid, max t a, max t a + q)]"] step
    show ?thesis
      by (simp add: body mx quantum_segments_step[OF assms gt])
  qed
qed

lemma sjn_single:
  assumes "0 \<le> a"
  shows "sjn_scheduling [(pid, a, b, pr)] = Returns [(pid, a, a + b)]"
proof -
  let ?p = "(pid, a, b, pr)"
  have run: "while_loop sjn_cond sjn_body ([?p], [], t, []) = Some ([], [], t + b, [(pid, t, t + b)])"
    if "a \<le> t" for t
  proof -
    have c: "sjn_cond ([?p], [], t, [])" by (simp add: sjn_cond_def)
    have body: "sjn_body ([?p], [], t, []) = ([], [], t + b, [(pid, t, t + b)])"
      using that by (simp add: sjn_body_def Let_def)
    have "\<not> sjn_cond ([], [], t + b, [(pid, t, t + b)])" by (simp add: sjn_cond_def)
    from while_loop_stop[of sjn_cond, OF this, of sjn_body] while_loop_step[of sjn_cond, OF c, of sjn_body]
    show ?thesis by (simp add: body)
  qed
  show ?thesis
  proof (cases "a = 0")
    case True
    with run[of 0] show ?thesis by (simp add: sjn_scheduling_def returning_def)
  next
    case False
    with assms have pos: "0 < a" by simp
    have c: "sjn_cond ([?p], [], 0, [])" by (simp add: sjn_cond_def)
    have body: "sjn_body ([?p], [], 0, []) = ([?p], [], a, [])"
      using pos by (simp add: sjn_body_def Let_def)
    from while_loop_step[of sjn_cond, OF c, of sjn_body] run[of a]
    show ?thesis by (simp add: body sjn_scheduling_def returning_def)
  qed
qed

text \<open>
  Claim C5, amended. For a process set with exactly one valid process (arrival \<open>a\<close> from 0,
  burst \<open>b\<close> from 1): FCFS, SJN and Priority return exactly the one segment \<open>[a, a+b)\<close>;
  the two preemptive schedulers return the \<open>b\<close> unit segments \<open>[a+i, a+i+1)\<close>, which they
  never merge, when \<open>a + b\<close> is at most \<open>2^1024 - 2^970\<close> (every clock value they convert
  is a float), and raise \<^verbatim>\<open>OverflowError\<close> otherwise; Round Robin with a quantum \<open>q\<close> from 1
  returns the segments \<open>[a+i*q, a+min(b,(i+1)*q))\<close>, one segment \<open>[a, a+b)\<close> exactly when
  \<open>b \<le> q\<close>.
\<close>

theorem single_process_timelines:
  assumes "0 \<le> a" and "1 \<le> b" and "1 \<le> quantum"
  shows "fcfs_scheduling [(pid, a, b, pr)] = [(pid, a, a + b)] \<and>
         sjn_scheduling [(pid, a, b, pr)] = Returns [(pid, a, a + b)] \<and>
         priority_scheduling [(pid, a, b, pr)] = [(pid, a, a + b)] \<and>
         sjn_preemptive_scheduling [(pid, a, b, pr)] =
           (if a + b \<le> float_limit then Returns (unit_segments pid a b)
            else Raises OverflowError) \<and>
         priority_preemptive_scheduling [(pid, a, b, pr)] =
           (if a + b \<le> float_limit then Returns (unit_segments pid a b)
            else Raises OverflowError) \<and>
         round_robin_scheduling [(pid, a, b, pr)] quantum
           = Returns (quantum_segments pid a b quantum) \<and>
         (b \<le> quantum \<longrightarrow> quantum_segments pid a b quantum = [(pid, a, a + b)])"
proof -
  have m: "max 0 a = a" using assms(1) by simp
  have 1: "fcfs_scheduling [(pid, a, b, pr)] = [(pid, a, a + b)]"
    by (simp add: fcfs_scheduling_def Let_def m)
  have 3: "priority_scheduling [(pid, a, b, pr)] = [(pid, a, a + b)]"
    by (simp add: priority_scheduling_def Let_def m)
  have 6: "round_robin_scheduling [(pid, a, b, pr)] quantum = Returns (quantum_segments pid a b quantum)"
    using rr_single_run[OF assms(3,2), of pid a pr 0 "[]"]
    by (simp add: round_robin_scheduling_def returning_def m)
  have 7: "b \<le> quantum \<longrightarrow> quantum_segments pid a b quantum = [(pid, a, a + b)]"
    using quantum_segments_last[OF assms(3,2)] by blast
  note 4 = preemptive_single[OF assms(2,1), of _ pid pr]
  from 1 sjn_single[OF assms(1)] 3 6 7 show ?thesis
    unfolding sjn_preemptive_scheduling_def priority_preemptive_scheduling_def 4 by blast
qed

theorem single_process_timelines_witness:
  "(0::int) \<le> 0 \<and> (1::int) \<le> 3 \<and> (1::int) \<le> 2 \<and>
   fcfs_scheduling [(''P1'', 0, 3, 1)] = [(''P1'', 0, 3)] \<and>
   sjn_preemptive_scheduling [(''P1'', 0, 3, 1)] = Returns [(''P1'', 0, 1), (''P1'', 1, 2), (''P1'', 2, 3)] \<and>
   round_robin_scheduling [(''P1'', 0, 3, 1)] 2 = Returns [(''P1'', 0, 2), (''P1'', 2, 3)]"
proof -
  have h: "(0::int) \<le> 0" "(1::int) \<le> 3" "(1::int) \<le> 2" by simp_all
  have u: "unit_segments ''P1'' 0 3 = [(''P1'', 0, 1), (''P1'', 1, 2), (''P1'', 2, 3)]"
    by (simp add: unit_segments_def upt_rec)
  have q: "quantum_segments ''P1'' 0 3 2 = [(''P1'', 0, 2), (''P1'', 2, 3)]"
    by (simp add: quantum_segments_def upt_rec)
  have f: "(0::int) + 3 \<le> float_limit" by (simp add: float_limit_def)
  from single_process_timelines[OF h, of "''P1''" 1] u q f show ?thesis by simp
qed

text \<open>
  Claim C5 as stated (one segment \<open>[a, a+b)\<close> under every policy) fails: with one process
  of burst 2 the preemptive SJN returns two unit segments.
\<close>

theorem srtf_single_process_is_split:
  "sjn_preemptive_scheduling [(''P1'', 0, 2, 1)] = Returns [(''P1'', 0, 1), (''P1'', 1, 2)] \<and>
   sjn_preemptive_scheduling [(''P1'', 0, 2, 1)] \<noteq> Returns [(''P1'', 0, 0 + 2)]"
  by (simp add: run_defs)

section \<open>Beyond the range of a float\<close>

text \<open>
  Claim C1 as stated (for every valid process set and each of the six scheduling
  functions) fails: the process set with the one process P1 of arrival \<open>10^400\<close>, burst 1
  and priority 1 is valid, and preemptive SJN returns no timeline for it. Line 60
  subtracts the clock from \<^verbatim>\<open>float('inf')\<close>, and the clock \<open>10^400\<close> is no float.
\<close>

theorem srtf_raises_beyond_float_range:
  "(0::int) \<le> 10 ^ 400 \<and> p_burst (''P1'', 10 ^ 400, 1, 1) = 1 \<and>
   sjn_preemptive_scheduling [(''P1'', 10 ^ 400, 1, 1)] = Raises OverflowError"
proof -
  have "\<not> (10 ^ 400 + 1 \<le> float_limit)" by (simp add: float_limit_def)
  with preemptive_single[of 1 "10 ^ 400" ByRemaining "''P1''" 1]
  show ?thesis by (simp add: sjn_preemptive_scheduling_def)
qed

text \<open>
  Claim C2 as stated (for every valid process set and each of the six scheduling
  functions) fails: for the valid process set with the one process P1 of arrival
  \<open>10^400\<close>, burst 1 and priority 1 the preemptive priority scheduler returns no timeline;
  line 130 raises \<^verbatim>\<open>OverflowError\<close>.
\<close>

theorem priority_preemptive_raises_beyond_float_range:
  "(0::int) \<le> 10 ^ 400 \<and> p_burst (''P1'', 10 ^ 400, 1, 1) = 1 \<and>
   p_priority (''P1'', 10 ^ 400, 1, 1) = 1 \<and>
   priority_preemptive_scheduling [(''P1'', 10 ^ 400, 1, 1)] = Raises OverflowError"
proof -
  have "\<not> (10 ^ 400 + 1 \<le> float_limit)" by (simp add: float_limit_def)
  with preemptive_single[of 1 "10 ^ 400" ByPriority "''P1''" 1]
  show ?thesis by (simp add: priority_preemptive_scheduling_def)
qed

section \<open>The fragmented-run calculator\<close>

lemma first_start_snoc:
  "first_start x (seen @ [(y, st, e)]) =
     (if x \<in> s_pid ` set seen then first_start x seen else if y = x then st else first_start x seen)"
proof (cases "x \<in> s_pid ` set seen")
  case True
  then have "filter (\<lambda>s. s_pid s = x) seen \<noteq> []" by (auto simp: filter_empty_conv)
  with True show ?thesis by (simp add: first_start_def)
next
  case False
  then have "filter (\<lambda>s. s_pid s = x) seen = []" by (auto simp: filter_empty_conv)
  with False show ?thesis by (simp add: first_start_def)
qed

lemma last_end_snoc:
  "last_end x (seen @ [(y, st, e)]) = (if y = x then e else last_end x seen)"
  by (simp add: last_end_def)

lemma exec_time_absent: "x \<notin> s_pid ` set seen \<Longrightarrow> exec_time x seen = 0"
  by (induction seen) (auto simp: exec_time_def)

lemma frag_inv_step:
  assumes "frag_inv pd seen (wt, fs, ct, le)"
  shows "frag_inv pd (seen @ [(pid, st, e)])
     ((case map_of pd pid of
         None \<Rightarrow> wt
       | Some (arrival, burst) \<Rightarrow>
           (case map_of wt pid of
              None \<Rightarrow> AList.update pid (max 0 (st - arrival)) wt
            | Some w \<Rightarrow> (case map_of le pid of
                           None \<Rightarrow> wt
                         | Some l \<Rightarrow> AList.update pid (w + (st - l)) wt))),
      (if map_of fs pid = None then AList.update pid st fs else fs),
      AList.update pid e ct,
      (case map_of pd pid of None \<Rightarrow> le | Some (arrival, burst) \<Rightarrow> AList.update pid e le))"
  (is "frag_inv pd ?seen' (?wt', ?fs', ?ct', ?le')")
proof -
  have inv: "(if x \<in> s_pid ` set seen
           then map_of fs x = Some (first_start x seen) \<and> map_of ct x = Some (last_end x seen)
           else map_of fs x = None \<and> map_of ct x = None) \<and>
          (case map_of pd x of
             None \<Rightarrow> map_of wt x = None \<and> map_of le x = None
           | Some (arrival, burst) \<Rightarrow>
               if x \<in> s_pid ` set seen
               then map_of le x = Some (last_end x seen) \<and>
                    map_of wt x = Some (max 0 (first_start x seen - arrival) +
                            (last_end x seen - first_start x seen - exec_time x seen))
               else map_of wt x = None \<and> map_of le x = None)" for x
    using assms unfolding frag_inv_def split_conv by blast
  have goal: "(if x \<in> s_pid ` set ?seen'
           then map_of ?fs' x = Some (first_start x ?seen') \<and> map_of ?ct' x = Some (last_end x ?seen')
           else map_of ?fs' x = None \<and> map_of ?ct' x = None) \<and>
          (case map_of pd x of
             None \<Rightarrow> map_of ?wt' x = None \<and> map_of ?le' x = None
           | Some (arrival, burst) \<Rightarrow>
               if x \<in> s_pid ` set ?seen'
               then map_of ?le' x = Some (last_end x ?seen') \<and>
                    map_of ?wt' x = Some (max 0 (first_start x ?seen' - arrival) +
                            (last_end x ?seen' - first_start x ?seen' - exec_time x ?seen'))
               else map_of ?wt' x = None \<and> map_of ?le' x = None)" for x
  proof (cases "x = pid")
    case False
    with inv[of x] show ?thesis
      by (auto simp: update_conv' first_start_snoc last_end_snoc split: option.splits prod.splits)
  next
    case True
    show ?thesis
    proof (cases "pid \<in> s_pid ` set seen")
      case seen: True
      with inv[of pid] True show ?thesis
        by (auto simp: update_conv' first_start_snoc last_end_snoc split: option.splits prod.splits)
    next
      case new: False
      with inv[of pid] True exec_time_absent[OF new] show ?thesis
        by (auto simp: update_conv' first_start_snoc last_end_snoc split: option.splits prod.splits)
    qed
  qed
  show ?thesis unfolding frag_inv_def split_conv using goal by blast
qed

lemma record_fragments_inv:
  "frag_inv pd seen st \<Longrightarrow> frag_inv pd (seen @ schedule) (record_fragments pd schedule st)"
proof (induction schedule arbitrary: seen st)
  case Nil
  then show ?case by simp
next
  case (Cons seg schedule)
  obtain pid start e where seg: "seg = (pid, start, e)" by (cases seg)
  obtain wt fs ct le where st: "st = (wt, fs, ct, le)" by (cases st)
  from Cons.prems have "frag_inv pd seen (wt, fs, ct, le)" by (simp add: st)
  note step = frag_inv_step[OF this, of pid start e]
  have "record_fragments pd (seg # schedule) st = record_fragments pd schedule
     ((case map_of pd pid of
         None \<Rightarrow> wt
       | Some (arrival, burst) \<Rightarrow>
           (case map_of wt pid of
              None \<Rightarrow> AList.update pid (max 0 (start - arrival)) wt
            | Some w \<Rightarrow> (case map_of le pid of
                           None \<Rightarrow> wt
                         | Some l \<Rightarrow> AList.update pid (w + (start - l)) wt))),
      (if map_of fs pid = None then AList.update pid start fs else fs),
      AList.update pid e ct,
      (case map_of pd pid of None \<Rightarrow> le | Some (arrival, burst) \<Rightarrow> AList.update pid e le))"
    unfolding seg st by (simp add: Let_def split: option.splits prod.splits)
  with Cons.IH[OF step] show ?case by (simp add: seg)
qed

lemma frag_inv_init: "frag_inv pd [] ([], [], [], [])"
  by (simp add: frag_inv_def split: option.splits prod.splits)


lemma dict_build_raises:
  "\<forall>k \<in> set ks. f k = Inl e \<or> (\<exists>v. f k = Inr v) \<Longrightarrow> \<exists>k \<in> set ks. f k = Inl e \<Longrightarrow>
   dict_build f ks d = Inl e"
proof (induction ks arbitrary: d)
  case Nil
  then show ?case by simp
next
  case (Cons k ks)
  show ?case
  proof (cases "f k")
    case (Inl e')
    with Cons.prems(1) show ?thesis by auto
  next
    case (Inr v)
    with Cons.prems have "\<exists>k \<in> set ks. f k = Inl e" "\<forall>k \<in> set ks. f k = Inl e \<or> (\<exists>v. f k = Inr v)"
      by auto
    from Cons.IH[OF this(2,1)] Inr show ?thesis by simp
  qed
qed

lemma fold_update_map_of:
  "distinct (map k ps) \<Longrightarrow>
   map_of (fold (\<lambda>p d. AList.update (k p) (v p) d) ps d) x =
     (case map_of (map (\<lambda>p. (k p, v p)) ps) x of Some y \<Rightarrow> Some y | None \<Rightarrow> map_of d x)"
proof (induction ps arbitrary: d)
  case Nil
  then show ?case by simp
next
  case (Cons p ps)
  from Cons.prems have d: "distinct (map k ps)" and n: "k p \<notin> k ` set ps" by auto
  have none: "map_of (map (\<lambda>p. (k p, v p)) ps) (k p) = None"
    using n by (auto simp: map_of_eq_None_iff image_iff)
  show ?case using Cons.IH[OF d, of "AList.update (k p) (v p) d"] none
    by (auto simp: update_conv' split: option.splits)
qed

lemma process_dict_lookup:
  assumes "distinct (map p_pid ps)" "p \<in> set ps"
  shows "map_of (fold (\<lambda>p d. AList.update (p_pid p) (v p) d) ps []) (p_pid p) = Some (v p)"
proof -
  have "map_of (map (\<lambda>p. (p_pid p, v p)) ps) (p_pid p) = Some (v p)"
    using assms by (induction ps) (auto simp: image_iff)
  then show ?thesis by (simp add: fold_update_map_of[OF assms(1)])
qed


lemma dict_build_result:
  "dict_build f ks d = Inr d' \<Longrightarrow>
   map_of d' k = (if k \<in> set ks then (case f k of Inr v \<Rightarrow> Some v | Inl e \<Rightarrow> None) else map_of d k)"
proof (induction ks arbitrary: d)
  case Nil
  then show ?case by simp
next
  case (Cons j ks)
  show ?case
  proof (cases "f j")
    case (Inl e)
    with Cons.prems show ?thesis by simp
  next
    case (Inr v)
    with Cons.prems have "dict_build f ks (AList.update j v d) = Inr d'" by simp
    from Cons.IH[OF this] Inr show ?thesis by (auto simp: update_conv')
  qed
qed

lemma arrivals_lookup:
  "map_of (map (\<lambda>(pid, arrival, burst). (pid, arrival)) pd) x = map_option fst (map_of pd x)"
  by (induction pd) auto

lemma update_fresh: "k \<notin> fst ` set d \<Longrightarrow> AList.update k v d = d @ [(k, v)]"
  by (induction d) auto

lemma fold_update_fresh:
  "distinct (map k ps) \<Longrightarrow> k ` set ps \<inter> fst ` set d = {} \<Longrightarrow>
   fold (\<lambda>p d. AList.update (k p) (v p) d) ps d = d @ map (\<lambda>p. (k p, v p)) ps"
proof (induction ps arbitrary: d)
  case Nil
  then show ?case by simp
next
  case (Cons p ps)
  from Cons.prems have fresh: "k p \<notin> fst ` set d" and d: "distinct (map k ps)"
    and rest: "k ` set ps \<inter> fst ` set (d @ [(k p, v p)]) = {}" by auto
  show ?case using Cons.IH[OF d rest] by (simp add: update_fresh[OF fresh])
qed

lemma dict_build_fresh:
  "distinct ks \<Longrightarrow> set ks \<inter> fst ` set d = {} \<Longrightarrow> \<forall>k \<in> set ks. f k = Inr (g k) \<Longrightarrow>
   dict_build f ks d = Inr (d @ map (\<lambda>k. (k, g k)) ks)"
proof (induction ks arbitrary: d)
  case Nil
  then show ?case by simp
next
  case (Cons k ks)
  from Cons.prems have fresh: "k \<notin> fst ` set d" and d: "distinct ks"
    and rest: "set ks \<inter> fst ` set (d @ [(k, g k)]) = {}"
    and fk: "f k = Inr (g k)" and fs: "\<forall>k \<in> set ks. f k = Inr (g k)" by auto
  show ?case using Cons.IH[OF d rest fs] by (simp add: fk update_fresh[OF fresh])
qed

lemma dict_sum:
  assumes d: "distinct (map fst d)" and ps: "distinct (map p_pid ps)"
    and keys: "fst ` set d = p_pid ` set ps"
    and vals: "\<forall>p \<in> set ps. map_of d (p_pid p) = Some (g p :: int)"
  shows "sum_list (map snd d) = sum_list (map g ps)" and "length d = length ps"
proof -
  let ?h = "\<lambda>k. the (map_of d k)"
  from keys have "set (map fst d) = set (map p_pid ps)" by simp
  with set_eq_iff_mset_eq_distinct[OF d ps] have m: "mset (map fst d) = mset (map p_pid ps)"
    by blast
  have "map snd d = map ?h (map fst d)"
    using d by (auto simp: map_of_eq_Some_iff)
  then have "sum_list (map snd d) = sum_mset (image_mset ?h (mset (map fst d)))"
    by (metis sum_list_as_mset)
  also have "\<dots> = sum_list (map ?h (map p_pid ps))" unfolding m by (metis sum_list_as_mset)
  also have "map ?h (map p_pid ps) = map g ps" using vals by simp
  finally show "sum_list (map snd d) = sum_list (map g ps)" .
  from m have "size (mset (map fst d)) = size (mset (map p_pid ps))" by simp
  then show "length d = length ps" by simp
qed

lemma record_fragments_distinct:
  "record_fragments pd schedule (wt, fs, ct, le) = (wt', fs', ct', le') \<Longrightarrow>
   distinct (map fst wt) \<Longrightarrow> distinct (map fst wt')"
proof (induction schedule arbitrary: wt fs ct le)
  case Nil
  then show ?case by simp
next
  case (Cons seg schedule)
  obtain pid st e where seg: "seg = (pid, st, e)" by (cases seg)
  from Cons.prems(1) obtain wt1 fs1 ct1 le1 where
    nxt: "record_fragments pd schedule (wt1, fs1, ct1, le1) = (wt', fs', ct', le')"
    and wt1: "wt1 = wt \<or> (\<exists>v. wt1 = AList.update pid v wt)"
    unfolding seg by (auto simp: Let_def split: option.splits prod.splits) blast+
  from wt1 Cons.prems(2) have "distinct (map fst wt1)" by (auto simp: distinct_update)
  from Cons.IH[OF nxt this] show ?case .
qed


lemma average_fits:
  "mean_fits (map snd d) \<Longrightarrow> \<exists>a. average d = Inr a"
  by (cases "d = []") (auto simp: average_def int_truediv_def Let_def mean_fits_def)


lemma with_averages_fits:
  assumes "mean_fits (map snd wt)" "mean_fits (map snd tt)" "mean_fits (map snd rt)"
  shows "\<exists>avg_w avg_t avg_r. with_averages wt tt rt = Inr (wt, avg_w, tt, avg_t, rt, avg_r)"
  using average_fits[OF assms(1)] average_fits[OF assms(2)] average_fits[OF assms(3)]
  by (auto simp: with_averages_def)

text \<open>
  Claim C10, amended. For every process set with unique ids and every timeline in which
  each process of the set has a segment and the first segment of each process starts no
  earlier than the process arrives, and for which the three averages are within the
  range of a float: the fragmented-run calculator returns a report, and for every process
  the turnaround time is the end of its last segment minus its arrival and the waiting
  time is that turnaround time minus the time the timeline gives to the process. Nothing
  is asked of the order of the segments.
\<close>

theorem fragmented_waiting_time:
  assumes dist: "distinct (map p_pid processes)"
    and every: "p_pid ` set processes \<subseteq> s_pid ` set schedule"
    and arr: "\<forall>p \<in> set processes. p_arrival p \<le> first_start (p_pid p) schedule"
    and fits_w: "mean_fits (map (\<lambda>p. last_end (p_pid p) schedule - p_arrival p -
                                     exec_time (p_pid p) schedule) processes)"
    and fits_t: "mean_fits (map (\<lambda>p. last_end (p_pid p) schedule - p_arrival p) processes)"
    and fits_r: "mean_fits (map (\<lambda>p. first_start (p_pid p) schedule - p_arrival p) processes)"
  shows "\<exists>wt avg_w tt avg_t rt avg_r.
           calculate_preemptive_waiting_time schedule processes
             = Inr (wt, avg_w, tt, avg_t, rt, avg_r) \<and>
           (\<forall>p \<in> set processes.
              map_of tt (p_pid p) = Some (last_end (p_pid p) schedule - p_arrival p) \<and>
              map_of wt (p_pid p) =
                Some (last_end (p_pid p) schedule - p_arrival p - exec_time (p_pid p) schedule))"
proof -
  let ?pd = "fold (\<lambda>p d. AList.update (p_pid p) (p_arrival p, p_burst p) d) processes []"
  let ?arrivals = "map (\<lambda>(pid, arrival, burst). (pid, arrival)) ?pd"
  let ?T = "\<lambda>p. last_end (p_pid p) schedule - p_arrival p"
  let ?R = "\<lambda>p. first_start (p_pid p) schedule - p_arrival p"
  let ?W = "\<lambda>p. last_end (p_pid p) schedule - p_arrival p - exec_time (p_pid p) schedule"
  let ?tt = "map (\<lambda>p. (p_pid p, ?T p)) processes"
  let ?rt = "map (\<lambda>p. (p_pid p, ?R p)) processes"
  obtain wt fs ct le where rf: "record_fragments ?pd schedule ([], [], [], []) = (wt, fs, ct, le)"
    by (cases "record_fragments ?pd schedule ([], [], [], [])") auto
  from record_fragments_inv[OF frag_inv_init, of ?pd schedule] rf
  have inv: "frag_inv ?pd schedule (wt, fs, ct, le)" by simp
  have pd_eq: "?pd = map (\<lambda>p. (p_pid p, (p_arrival p, p_burst p))) processes"
    using fold_update_fresh[OF dist, of "[]" "\<lambda>p. (p_arrival p, p_burst p)"] by simp
  have keys: "map fst ?pd = map p_pid processes" unfolding pd_eq by (simp add: comp_def)
  have at: "map_of ?pd (p_pid p) = Some (p_arrival p, p_burst p)"
      "map_of ct (p_pid p) = Some (last_end (p_pid p) schedule)"
      "map_of fs (p_pid p) = Some (first_start (p_pid p) schedule)"
      "map_of wt (p_pid p) = Some (?W p)"
    if p: "p \<in> set processes" for p
  proof -
    show pd: "map_of ?pd (p_pid p) = Some (p_arrival p, p_burst p)"
      by (rule process_dict_lookup[OF dist p])
    from every p have seen: "p_pid p \<in> s_pid ` set schedule" by blast
    note at_p = inv[unfolded frag_inv_def split_conv, THEN spec, of "p_pid p"]
    from at_p seen pd
    have w: "map_of wt (p_pid p) = Some (max 0 (first_start (p_pid p) schedule - p_arrival p) +
                  (last_end (p_pid p) schedule - first_start (p_pid p) schedule -
                   exec_time (p_pid p) schedule))"
      by simp
    from at_p seen pd
    show "map_of ct (p_pid p) = Some (last_end (p_pid p) schedule)"
      "map_of fs (p_pid p) = Some (first_start (p_pid p) schedule)"
      by simp_all
    from arr p have "p_arrival p \<le> first_start (p_pid p) schedule" by blast
    with w show "map_of wt (p_pid p) = Some (?W p)" by simp
  qed
  have al: "map_of ?arrivals (p_pid p) = Some (p_arrival p)" if "p \<in> set processes" for p
    unfolding arrivals_lookup at(1)[OF that] by simp
  have m_t: "\<forall>k \<in> set (map p_pid processes).
      minus_arrival ct ?arrivals k = Inr (the (map_of ct k) - the (map_of ?arrivals k))"
    and m_r: "\<forall>k \<in> set (map p_pid processes).
      minus_arrival fs ?arrivals k = Inr (the (map_of fs k) - the (map_of ?arrivals k))"
    using at(2,3) al by (auto simp: minus_arrival_def dict_get_def)
  have tt: "dict_comprehension (minus_arrival ct ?arrivals) (map fst ?pd) = Inr ?tt"
  proof -
    have "map (\<lambda>k. (k, the (map_of ct k) - the (map_of ?arrivals k))) (map p_pid processes) = ?tt"
      using at(2) al by simp
    with dict_build_fresh[OF dist, of "[]", OF _ m_t] show ?thesis
      unfolding dict_comprehension_def keys by simp
  qed
  have rt: "dict_comprehension (minus_arrival fs ?arrivals) (map fst ?pd) = Inr ?rt"
  proof -
    have "map (\<lambda>k. (k, the (map_of fs k) - the (map_of ?arrivals k))) (map p_pid processes) = ?rt"
      using at(3) al by simp
    with dict_build_fresh[OF dist, of "[]", OF _ m_r] show ?thesis
      unfolding dict_comprehension_def keys by simp
  qed
  have unfolded: "calculate_preemptive_waiting_time schedule processes = with_averages wt ?tt ?rt"
    unfolding calculate_preemptive_waiting_time_def Let_def rf split_conv tt rt by simp
  have wt_keys: "fst ` set wt = p_pid ` set processes"
  proof -
    have "x \<in> dom (map_of wt) \<longleftrightarrow> x \<in> p_pid ` set processes" for x
    proof (cases "x \<in> p_pid ` set processes")
      case True
      with at(4) show ?thesis by auto
    next
      case False
      then have "map_of ?pd x = None" unfolding pd_eq by (force simp: map_of_eq_None_iff)
      with inv[unfolded frag_inv_def split_conv, THEN spec, of x] False show ?thesis by auto
    qed
    then show ?thesis by (auto simp: dom_map_of_conv_image_fst)
  qed
  have wt_d: "distinct (map fst wt)" by (rule record_fragments_distinct[OF rf]) simp
  note ws = dict_sum[OF wt_d dist wt_keys, of ?W] 
  have sw: "map snd wt = map snd wt" ..
  have fw: "mean_fits (map snd wt)"
    using fits_w ws at(4) by (simp add: mean_fits_def)
  have ft: "mean_fits (map snd ?tt)" using fits_t by (simp add: comp_def)
  have fr: "mean_fits (map snd ?rt)" using fits_r by (simp add: comp_def)
  from with_averages_fits[OF fw ft fr] obtain avg_w avg_t avg_r where
    r: "calculate_preemptive_waiting_time schedule processes = Inr (wt, avg_w, ?tt, avg_t, ?rt, avg_r)"
    unfolding unfolded by blast
  have "map_of ?tt (p_pid p) = Some (?T p)" if "p \<in> set processes" for p
    using dist that by (induction processes) (auto simp: image_iff)
  with at(4) r show ?thesis by blast
qed

theorem fragmented_waiting_time_witness:
  "distinct (map p_pid [(''P1'', 0, 2, 1), (''P2'', 1, 1, 1)]) \<and>
   p_pid ` set [(''P1'', 0, 2, 1), (''P2'', 1, 1, 1)]
     \<subseteq> s_pid ` set [(''P1'', 0, 1), (''P2'', 1, 2), (''P1'', 2, 3)] \<and>
   calculate_preemptive_waiting_time [(''P1'', 0, 1), (''P2'', 1, 2), (''P1'', 2, 3)]
       [(''P1'', 0, 2, 1), (''P2'', 1, 1, 1)]
     = Inr ([(''P1'', 1), (''P2'', 0)], PyFloat (Finite (1 / 2)),
            [(''P1'', 3), (''P2'', 1)], PyFloat (Finite 2),
            [(''P1'', 0), (''P2'', 0)], PyFloat (Finite 0)) \<and>
   last_end ''P1'' [(''P1'', 0, 1), (''P2'', 1, 2), (''P1'', 2, 3)] - 0 = 3 \<and>
   last_end ''P1'' [(''P1'', 0, 1), (''P2'', 1, 2), (''P1'', 2, 3)] - 0
     - exec_time ''P1'' [(''P1'', 0, 1), (''P2'', 1, 2), (''P1'', 2, 3)] = 1"
proof -
  let ?sch = "[(''P1'', 0, 1), (''P2'', 1, 2), (''P1'', 2, 3)] :: segment list"
  let ?ps = "[(''P1'', 0, 2, 1), (''P2'', 1, 1, 1)] :: process list"
  have d: "distinct (map p_pid ?ps)" by simp
  have e: "p_pid ` set ?ps \<subseteq> s_pid ` set ?sch" by simp
  have a: "\<forall>p \<in> set ?ps. p_arrival p \<le> first_start (p_pid p) ?sch"
    by (simp add: first_start_def)
  have fw: "mean_fits (map (\<lambda>p. last_end (p_pid p) ?sch - p_arrival p - exec_time (p_pid p) ?sch) ?ps)"
    by (simp add: mean_fits_def last_end_def exec_time_def duration_def float_overflow_def
        float_limit_def)
  have ft: "mean_fits (map (\<lambda>p. last_end (p_pid p) ?sch - p_arrival p) ?ps)"
    by (simp add: mean_fits_def last_end_def float_overflow_def float_limit_def)
  have fr: "mean_fits (map (\<lambda>p. first_start (p_pid p) ?sch - p_arrival p) ?ps)"
    by (simp add: mean_fits_def first_start_def float_overflow_def float_limit_def)
  have r: "calculate_preemptive_waiting_time ?sch ?ps
     = Inr ([(''P1'', 1), (''P2'', 0)], PyFloat (Finite (1 / 2)),
            [(''P1'', 3), (''P2'', 1)], PyFloat (Finite 2),
            [(''P1'', 0), (''P2'', 0)], PyFloat (Finite 0))"
    by (simp add: calc_defs)
  have v: "last_end ''P1'' ?sch - 0 = 3"
    "last_end ''P1'' ?sch - 0 - exec_time ''P1'' ?sch = 1"
    by (simp_all add: last_end_def exec_time_def duration_def)
  from fragmented_waiting_time[OF d e a fw ft fr] d e r v show ?thesis by simp
qed

text \<open>
  Claim C10 as stated fails. In the timeline with the one segment P1[0,1) the segments of
  every process are in order and do not overlap, and P1, which appears in it, starts at
  its arrival; yet for the process set P1, P2 the calculator yields no waiting time: the
  turnaround times of line 190 are computed for every process of the set, and P2 has no
  completion time.
\<close>

theorem fragmented_calculator_needs_every_process:
  "calculate_preemptive_waiting_time [(''P1'', 0, 1)] [(''P1'', 0, 1, 1), (''P2'', 0, 1, 1)]
     = Inl KeyError"
  by (simp add: calc_defs)

section \<open>Invalid input\<close>












text \<open>A quantum of 0 is not rejected either: Round Robin then never returns.\<close>

lemma round_robin_zero_quantum_diverges:
  "round_robin_scheduling [(''P1'', 0, 1, 1)] 0 = Diverges"
proof -
  let ?I = "\<lambda>s :: rr_state. fst s = [(''P1'', 0, 1, 1)]"
  have "while_loop rr_cond (rr_body 0) ([(''P1'', 0, 1, 1)], 0, []) = None"
  proof (rule while_loop_never[of ?I])
    show "?I ([(''P1'', 0, 1, 1)], 0, [])" by simp
  next
    fix s :: rr_state
    assume "?I s"
    then obtain t sch where s: "s = ([(''P1'', 0, 1, 1)], t, sch)" by (cases s) auto
    show "rr_cond s \<and> ?I (rr_body 0 s)" unfolding s by (simp add: rr_cond_def rr_body_eq)
  qed
  then show ?thesis by (simp add: round_robin_scheduling_def returning_def)
qed

section \<open>Further facts about the code\<close>

text \<open>
  With an empty process set both calculators do return the all-zero report, whatever the
  timeline.
\<close>

lemma record_fragments_no_processes:
  "record_fragments [] schedule (wt, fs, ct, le) = (wt', fs', ct', le') \<Longrightarrow> wt' = wt"
proof (induction schedule arbitrary: fs ct)
  case Nil
  then show ?case by simp
next
  case (Cons seg schedule)
  obtain pid st e where seg: "seg = (pid, st, e)" by (cases seg)
  from Cons.prems Cons.IH show ?case unfolding seg by (simp add: Let_def)
qed

lemma calculators_on_empty_process_set:
  "calculate_waiting_time schedule [] = Inr ([], PyInt 0, [], PyInt 0, [], PyInt 0) \<and>
   calculate_preemptive_waiting_time schedule [] = Inr ([], PyInt 0, [], PyInt 0, [], PyInt 0)"
proof -
  obtain fs ct where rr: "record_runs schedule ([], []) = (fs, ct)"
    by (cases "record_runs schedule ([], [])") auto
  obtain wt fs' ct' le where rf: "record_fragments [] schedule ([], [], [], []) = (wt, fs', ct', le)"
    by (cases "record_fragments [] schedule ([], [], [], [])") auto
  from record_fragments_no_processes[OF rf] have wt: "wt = []" .
  have 1: "calculate_waiting_time schedule [] = Inr ([], PyInt 0, [], PyInt 0, [], PyInt 0)"
    unfolding calculate_waiting_time_def Let_def
    by (simp add: rr dict_comprehension_def with_averages_def average_def)
  have 2: "calculate_preemptive_waiting_time schedule [] = Inr ([], PyInt 0, [], PyInt 0, [], PyInt 0)"
    unfolding calculate_preemptive_waiting_time_def Let_def
    by (simp add: rf wt dict_comprehension_def with_averages_def average_def)
  from 1 2 show ?thesis by simp
qed

lemma takeWhile_sorted_arrivals:
  "sorted (map p_arrival ps) \<Longrightarrow>
   takeWhile (\<lambda>p. p_arrival p \<le> t) ps = filter (\<lambda>p. p_arrival p \<le> t) ps"
proof (induction ps)
  case Nil
  then show ?case by simp
next
  case (Cons p ps)
  show ?case
  proof (cases "p_arrival p \<le> t")
    case True
    with Cons show ?thesis by simp
  next
    case False
    with Cons.prems have "\<forall>q \<in> set ps. \<not> p_arrival q \<le> t" by auto
    with False show ?thesis by (simp add: filter_empty_conv)
  qed
qed

lemma hd_sort_key_least:
  "xs \<noteq> [] \<Longrightarrow> \<forall>x \<in> set xs. f (hd (sort_key f xs)) \<le> f x"
proof -
  assume ne: "xs \<noteq> []"
  then obtain y ys where s: "sort_key f xs = y # ys" by (cases "sort_key f xs") auto
  have "sorted (map f (sort_key f xs))" by (rule sorted_sort_key)
  with s have "\<forall>x \<in> set (y # ys). f y \<le> f x" by auto
  moreover have "set (y # ys) = set xs" by (metis s set_sort)
  ultimately have "\<forall>x \<in> set xs. f y \<le> f x" by blast
  then show ?thesis by (simp add: s)
qed

text \<open>
  On a process list sorted by arrival the loop of \<^verbatim>\<open>sjn_scheduling\<close> does select by burst: the ready queue
  holds every arrived process that has not run, the shortest of them is dispatched, and
  when none has arrived the clock moves to the earliest pending arrival.
\<close>

lemma sjn_body_on_sorted_input:
  assumes "sorted (map p_arrival ps)" and "sjn_cond (ps, rq, t, sch)"
  shows "let ready = rq @ filter (\<lambda>p. p_arrival p \<le> t) ps;
             chosen = hd (sort_key p_burst ready)
         in if ready \<noteq> [] then
              chosen \<in> set ready \<and> (\<forall>p \<in> set ready. p_burst chosen \<le> p_burst p) \<and>
              sjn_body (ps, rq, t, sch)
                = (dropWhile (\<lambda>p. p_arrival p \<le> t) ps, tl (sort_key p_burst ready),
                   t + p_burst chosen, sch @ [(p_pid chosen, t, t + p_burst chosen)])
            else
              (\<forall>p \<in> set ps. p_arrival (hd ps) \<le> p_arrival p) \<and>
              sjn_body (ps, rq, t, sch) = (ps, [], p_arrival (hd ps), sch)"
proof -
  let ?ready = "rq @ filter (\<lambda>p. p_arrival p \<le> t) ps"
  note tw = takeWhile_sorted_arrivals[OF assms(1), of t]
  show ?thesis
  proof (cases "?ready = []")
    case False
    then have ne: "rq @ takeWhile (\<lambda>p. p_arrival p \<le> t) ps \<noteq> []" by (simp add: tw)
    from sjn_body_run[OF ne, of sch] hd_sort_key_in[OF False, of p_burst]
      hd_sort_key_least[OF False, of p_burst] False
    show ?thesis by (simp add: tw Let_def)
  next
    case True
    with assms(2) have e: "rq = []" "ps \<noteq> []" by (auto simp: sjn_cond_def)
    from True e have late: "t < p_arrival (hd ps)" by (cases ps) (auto split: if_splits)
    have least: "\<forall>p \<in> set ps. p_arrival (hd ps) \<le> p_arrival p"
      using assms(1) e(2) by (cases ps) auto
    from sjn_body_idle[OF e late, of sch] least True show ?thesis by (simp add: Let_def)
  qed
qed

text \<open>
  The preemptive priority scheduler can emit a segment of length 0: a process preempted
  at the moment it finishes is queued again with no time left. Such a segment overlaps
  nothing and adds nothing to the executed time.
\<close>

lemma priority_preemptive_empty_segment:
  "priority_preemptive_scheduling [(''A'', 0, 1, 2), (''B'', 1, 1, 1)]
     = Returns [(''A'', 0, 1), (''B'', 1, 2), (''A'', 2, 2)]"
  by (simp add: run_defs)

end
